theory Spec2Isabelle
  imports Complex_Main "HOL-Library.Sublist" "HOL-Library.AList" "HOL-Library.Multiset"
begin

section \<open>Python values used by the log analyser\<close>

text \<open>
  The exceptions that the modelled statements can raise. A function that can raise
  returns \<open>py_error + 'a\<close>, with \<open>Inl\<close> for the exception.
\<close>

datatype py_error = KeyError | IndexError | JSONDecodeError

text \<open>
  A count dictionary maps a level name to an integer. The entries are kept in insertion
  order, as a Python dict keeps them. The flag tells a \<open>defaultdict(int)\<close>
  (a missing key reads as 0 and is inserted) from a plain \<open>dict\<close> (a missing key
  raises KeyError); \<open>json.load\<close> returns plain dicts.
\<close>

datatype pydict = Dict (is_default: bool) (entries: "(string \<times> int) list")

definition lookup :: "(string \<times> int) list \<Rightarrow> string \<Rightarrow> int" where
  "lookup es k = (case map_of es k of None \<Rightarrow> 0 | Some v \<Rightarrow> v)"

text \<open>\<open>d[k] += c\<close> on the entries of a dictionary that has the key or supplies the default 0.\<close>

definition add_entry :: "(string \<times> int) list \<Rightarrow> string \<Rightarrow> int \<Rightarrow> (string \<times> int) list" where
  "add_entry es k c = AList.update k (lookup es k + c) es"

text \<open>\<open>d[k] += c\<close>: reads \<open>d[k]\<close> first, which raises KeyError on a plain dict without the key.\<close>

definition add_item :: "pydict \<Rightarrow> string \<Rightarrow> int \<Rightarrow> py_error + pydict" where
  "add_item d k c =
     (if k \<in> fst ` set (entries d) \<or> is_default d
      then Inr (Dict (is_default d) (add_entry (entries d) k c))
      else Inl KeyError)"

definition count_sum :: "(string \<times> int) list \<Rightarrow> int" where
  "count_sum es = sum_list (map snd es)"

section \<open>analyse_log_file\<close>

text \<open>
  What reading a file yields: \<open>Lines ls\<close> when every line is read, \<open>Failed ls\<close> when
  \<open>open\<close> or the iteration raises after the lines \<open>ls\<close> were yielded (\<open>Failed []\<close> when the
  file cannot be opened). The \<open>except\<close> branch prints and the counts gathered so far are
  returned.
\<close>

datatype file_read = Lines "string list" | Failed "string list"

fun yielded :: "file_read \<Rightarrow> string list" where
  "yielded (Lines ls) = ls"
| "yielded (Failed ls) = ls"

text \<open>One iteration of the loop body: the \<open>if\<close>/\<open>elif\<close> chain, in the order of the source.\<close>

definition count_line :: "(string \<times> int) list \<Rightarrow> string \<Rightarrow> (string \<times> int) list" where
  "count_line counts line =
     (if sublist ''[INFO]'' line then add_entry counts ''INFO'' 1
      else if sublist ''[WARN]'' line \<or> sublist ''[WARNING]'' line then add_entry counts ''WARN'' 1
      else if sublist ''[ERROR]'' line then add_entry counts ''ERROR'' 1
      else if sublist ''[DEBUG]'' line then add_entry counts ''DEBUG'' 1
      else counts)"

definition analyse_log_file :: "file_read \<Rightarrow> pydict" where
  "analyse_log_file f = Dict True (foldl count_line [] (yielded f))"

section \<open>merge_counts\<close>

text \<open>
  \<open>for level, count in new_counts.items(): total_counts[level] += count\<close>.
  The loop stops at the first KeyError.
\<close>

fun merge_items :: "pydict \<Rightarrow> (string \<times> int) list \<Rightarrow> py_error + pydict" where
  "merge_items tot [] = Inr tot"
| "merge_items tot ((level, cnt) # rest) =
     (case add_item tot level cnt of
        Inl e \<Rightarrow> Inl e
      | Inr tot' \<Rightarrow> merge_items tot' rest)"

definition merge_counts :: "pydict \<Rightarrow> pydict \<Rightarrow> py_error + pydict" where
  "merge_counts total_counts new_counts = merge_items total_counts (entries new_counts)"

text \<open>\<open>for result in results: merge_counts(total_counts, new_counts=result)\<close>\<close>

fun merge_results :: "pydict \<Rightarrow> pydict list \<Rightarrow> py_error + pydict" where
  "merge_results tot [] = Inr tot"
| "merge_results tot (r # rs) =
     (case merge_counts tot r of
        Inl e \<Rightarrow> Inl e
      | Inr tot' \<Rightarrow> merge_results tot' rs)"

section \<open>The checkpoint folder\<close>

record checkpoint_data =
  timestamp :: real
  counts :: pydict
  processed_files :: "string list"
  pending_files :: "string list"

text \<open>
  The state of the folder \<open>checkpoint\<close> and of \<open>checkpoint/checkpoint.json\<close> in it:
  no folder; a folder without the file; the file opened for writing, holding a proper
  prefix (possibly empty) of the JSON text; the file holding the whole JSON text of a record.
\<close>

datatype disk = NoFolder | EmptyFolder | Partial | Saved checkpoint_data

text \<open>
  save_checkpoint is called with \<open>file_paths=[]\<close>, so its copy loop does nothing. The
  states the folder goes through, in order: as found; after \<open>shutil.rmtree\<close> (only when the
  folder exists); after \<open>os.makedirs\<close>; after \<open>open(json_path, "w")\<close>, while \<open>json.dump\<close>
  writes; after the file is closed. A save interrupted at one of these points leaves the
  folder in that state.
\<close>

definition save_trace :: "disk \<Rightarrow> checkpoint_data \<Rightarrow> disk list" where
  "save_trace d dat =
     [d] @ (if d \<noteq> NoFolder then [NoFolder] else []) @ [EmptyFolder, Partial, Saved dat]"

definition save_checkpoint :: "disk \<Rightarrow> checkpoint_data \<Rightarrow> disk" where
  "save_checkpoint d dat = last (save_trace d dat)"

text \<open>
  The resume test of main: \<open>os.path.exists("checkpoint/checkpoint.json")\<close>, then
  \<open>json.load\<close>. A proper prefix of the text of a JSON object is not JSON, so \<open>json.load\<close>
  raises on it. Every JSON object is read back as a plain dict.
\<close>

datatype load_result = NotFound | Loaded checkpoint_data

definition as_loaded :: "checkpoint_data \<Rightarrow> checkpoint_data" where
  "as_loaded dat = dat\<lparr>counts := Dict False (entries (counts dat))\<rparr>"

fun load :: "disk \<Rightarrow> py_error + load_result" where
  "load NoFolder = Inr NotFound"
| "load EmptyFolder = Inr NotFound"
| "load Partial = Inl JSONDecodeError"
| "load (Saved dat) = Inr (Loaded (as_loaded dat))"

section \<open>The master's state\<close>

text \<open>
  What \<open>comm.send\<close> carries from the master: a command (tag 1), a list of file and index
  pairs, or \<open>None\<close> (tag 3), the stop signal.
\<close>

datatype message = Dispatch "(string \<times> int) list" | Stop

text \<open>The dictionary a worker sends back (tag 2).\<close>

record completion =
  result :: "pydict list"
  index :: "int list"
  worker :: int

text \<open>
  The variables of main on rank 0. An entry of \<open>maps\<close> is 0 for a pending file, -1 for a
  processed one and the rank of the worker for an assigned one. \<open>sent\<close> logs every
  \<open>comm.send\<close> as destination and message; \<open>folder\<close> is the checkpoint folder.
\<close>

record master =
  log_files :: "string list"
  maps :: "int list"
  total_counts :: pydict
  recieved :: nat
  results :: "pydict list"
  timers :: "real list"
  checkpointer :: real
  sent :: "(int \<times> message) list"
  folder :: disk

subsection \<open>Start: resume or discovery\<close>

definition path_join :: "string \<Rightarrow> string \<Rightarrow> string" where
  "path_join dir name =
     (if dir = [] then name
      else if last dir = CHR ''/'' then dir @ name
      else dir @ ''/'' @ name)"

text \<open>
  Lines 105 to 131: the values of \<open>log_files\<close>, \<open>maps\<close>, \<open>total_counts\<close> and \<open>recieved\<close> from
  a checkpoint, or else from the directory listing. \<open>sys.exit(1)\<close> on no file is SystemExit.
\<close>

datatype start_error = Raised py_error | SystemExit

definition start :: "disk \<Rightarrow> string \<Rightarrow> string list \<Rightarrow> start_error + master" where
  "start d log_dir listing =
     (case load d of
        Inl e \<Rightarrow> Inl (Raised e)
      | Inr r \<Rightarrow>
         (let s = (case r of
                Loaded dat \<Rightarrow>
                  \<lparr>log_files = processed_files dat @ pending_files dat,
                   maps = replicate (length (processed_files dat)) (-1)
                          @ replicate (length (pending_files dat)) 0,
                   total_counts = counts dat,
                   recieved = length (processed_files dat),
                   results = [], timers = [], checkpointer = 0, sent = [], folder = d\<rparr>
              | NotFound \<Rightarrow>
                  \<lparr>log_files = map (path_join log_dir) (filter (suffix ''.log'') listing),
                   maps = map (\<lambda>_. 0) (filter (suffix ''.log'') listing),
                   total_counts = Dict True [],
                   recieved = 0,
                   results = [], timers = [], checkpointer = 0, sent = [], folder = d\<rparr>)
          in if log_files s = [] then Inl SystemExit else Inr s))"

subsection \<open>Initial dispatch (lines 140 to 167)\<close>

text \<open>
  The loop that gathers the first pending indices, with its \<open>break\<close>. The number of
  processes, \<open>size\<close> in the source, is \<open>nprocs\<close> here.
\<close>

fun first_indices_loop :: "nat \<Rightarrow> int list \<Rightarrow> nat list \<Rightarrow> nat list \<Rightarrow> nat list" where
  "first_indices_loop limit mp acc [] = acc"
| "first_indices_loop limit mp acc (i # rest) =
     (if mp ! i = 0
      then (if length (acc @ [i]) = limit then acc @ [i]
            else first_indices_loop limit mp (acc @ [i]) rest)
      else first_indices_loop limit mp acc rest)"

definition first_indices :: "nat \<Rightarrow> master \<Rightarrow> nat list" where
  "first_indices nprocs s =
     first_indices_loop (10 * (nprocs - 1)) (maps s) [] [0..<length (log_files s)]"

text \<open>
  One round of the loop over the workers: the command of worker \<open>i\<close> is built from the
  entries \<open>(i-1)*10 .. (i-1)*10+9\<close> of \<open>first_indices\<close> that exist, sent, the timer is set
  to the clock reading and the entries of \<open>maps\<close> are set to \<open>i\<close>. The two lists
  \<open>log_files\<close> and \<open>maps\<close> are built side by side and have one length, so the reads
  and writes by an index taken from one of them are in range of the other.
\<close>

definition initial_batch :: "nat list \<Rightarrow> nat \<Rightarrow> nat list" where
  "initial_batch fi i =
     map (\<lambda>index. fi ! index)
       (filter (\<lambda>index. index < length fi) (map (\<lambda>j. (i - 1) * 10 + j) [0..<10]))"

definition dispatch_initial :: "nat list \<Rightarrow> (nat \<Rightarrow> real) \<Rightarrow> master \<Rightarrow> nat \<Rightarrow> master" where
  "dispatch_initial fi clock s i =
     s\<lparr>sent := sent s @ [(int i, Dispatch (map (\<lambda>j. (log_files s ! j, int j)) (initial_batch fi i)))],
       timers := (timers s)[i - 1 := clock i],
       maps := foldl (\<lambda>mp j. mp[j := int i]) (maps s) (initial_batch fi i)\<rparr>"

definition initial_dispatch :: "nat \<Rightarrow> (nat \<Rightarrow> real) \<Rightarrow> real \<Rightarrow> master \<Rightarrow> master" where
  "initial_dispatch nprocs clock t s =
     (foldl (dispatch_initial (first_indices nprocs s) clock)
        (s\<lparr>timers := replicate nprocs 0, results := []\<rparr>) [1..<nprocs])
     \<lparr>checkpointer := t\<rparr>"

subsection \<open>The monitoring loop (lines 169 to 227)\<close>

text \<open>
  Lines 176 to 193 and 239 to 252: the two lists of a checkpoint record. The loop reads
  \<open>log_files[i]\<close> for every index of \<open>maps\<close>, which raises IndexError when \<open>log_files\<close>
  is the shorter list.
\<close>

definition split_files :: "string list \<Rightarrow> int list \<Rightarrow> py_error + (string list \<times> string list)" where
  "split_files lf mp =
     (if length lf < length mp then Inl IndexError
      else Inr (foldl (\<lambda>(completed_files, todo_files) i.
                   if mp ! i = -1 then (completed_files @ [lf ! i], todo_files)
                   else (completed_files, todo_files @ [lf ! i]))
                 ([], []) [0..<length mp]))"

text \<open>The periodic checkpoint: the counts are merged from \<open>results\<close> into a fresh defaultdict.\<close>

definition periodic_checkpoint :: "real \<Rightarrow> real \<Rightarrow> master \<Rightarrow> py_error + master" where
  "periodic_checkpoint t_mark t_stamp s =
     (case merge_results (Dict True []) (results s) of
        Inl e \<Rightarrow> Inl e
      | Inr curr_counts \<Rightarrow>
         (case split_files (log_files s) (maps s) of
            Inl e \<Rightarrow> Inl e
          | Inr (completed_files, todo_files) \<Rightarrow>
              Inr (s\<lparr>checkpointer := t_mark,
                     folder := save_checkpoint (folder s)
                       \<lparr>timestamp = t_stamp, counts = curr_counts,
                        processed_files = completed_files, pending_files = todo_files\<rparr>\<rparr>)))"

text \<open>\<open>timers.index(t)\<close>: the first position holding \<open>t\<close>. It is read from the list, so it is found.\<close>

definition py_index :: "'a list \<Rightarrow> 'a \<Rightarrow> nat" where
  "py_index xs x = length (takeWhile (\<lambda>y. y \<noteq> x) xs)"

text \<open>
  Lines 196 to 204, the body of \<open>for t in timers\<close> at position \<open>pos\<close>. The iteration reads
  the list as it is at that moment, after the earlier rounds have cleared entries.
\<close>

definition timeout_worker :: "real \<Rightarrow> master \<Rightarrow> nat \<Rightarrow> master" where
  "timeout_worker curr_t s pos =
     (let t = timers s ! pos in
      if curr_t - t > 5 \<and> t > 0
      then (let w = py_index (timers s) t in
            s\<lparr>sent := sent s @ [(int w + 1, Stop)],
              maps := map (\<lambda>m. if m = int w + 1 then 0 else m) (maps s),
              timers := (timers s)[w := 0]\<rparr>)
      else s)"

definition timeout_scan :: "real \<Rightarrow> master \<Rightarrow> master" where
  "timeout_scan curr_t s = foldl (timeout_worker curr_t) s [0..<length (timers s)]"

text \<open>\<open>xs[i] = v\<close> with Python's indexing: a negative index counts from the end.\<close>

definition py_store :: "'a list \<Rightarrow> int \<Rightarrow> 'a \<Rightarrow> py_error + 'a list" where
  "py_store xs i v =
     (if 0 \<le> i \<and> i < int (length xs) then Inr (xs[nat i := v])
      else if i < 0 \<and> - int (length xs) \<le> i then Inr (xs[nat (int (length xs) + i) := v])
      else Inl IndexError)"

text \<open>
  Lines 206 to 213: the message is counted, its results are appended, every index it
  names is set to -1 and the timer of the sender is set to the clock reading.
\<close>

definition complete :: "completion \<Rightarrow> real \<Rightarrow> master \<Rightarrow> py_error + master" where
  "complete msg now s =
     (case py_store (timers s) (worker msg - 1) now of
        Inl e \<Rightarrow> Inl e
      | Inr timers' \<Rightarrow>
          Inr (s\<lparr>recieved := recieved s + length (result msg),
                 results := results s @ result msg,
                 maps := map (\<lambda>i. if int i \<in> set (index msg) then -1 else maps s ! i)
                           [0..<length (maps s)],
                 timers := timers'\<rparr>))"

text \<open>Lines 218 to 224: the \<open>while\<close> loop that finds the next pending files.\<close>

function next_files_loop :: "int list \<Rightarrow> nat list \<Rightarrow> nat \<Rightarrow> nat list" where
  "next_files_loop mp next_files i =
     (if length next_files < 10 \<and> i < length mp
      then next_files_loop mp (if mp ! i = 0 then next_files @ [i] else next_files) (i + 1)
      else next_files)"
  by pat_completeness auto
termination
  by (relation "measure (\<lambda>(mp, next_files, i). length mp - i)") auto

text \<open>
  Lines 217 to 227: when a file is pending, the next batch is sent to the worker that
  reported and assigned to it. \<open>log_files[next_file]\<close> raises IndexError out of range.
\<close>

definition dispatch_next :: "int \<Rightarrow> master \<Rightarrow> py_error + master" where
  "dispatch_next w s =
     (if 0 \<in> set (maps s)
      then (let next_files = next_files_loop (maps s) [] 0 in
            if list_ex (\<lambda>j. length (log_files s) \<le> j) next_files then Inl IndexError
            else Inr (s\<lparr>sent := sent s @ [(w, Dispatch (map (\<lambda>j. (log_files s ! j, int j)) next_files))],
                        maps := map (\<lambda>i. if i \<notin> set next_files then maps s ! i else w)
                                  [0..<length (maps s)]\<rparr>))
      else Inr s)"

text \<open>
  One round of the loop. \<open>rec.test()\<close> either has no message (\<open>Idle\<close>, with the four clock
  readings of lines 173, 174, 188 and 194) or has one (\<open>Arrived\<close>, with the clock reading
  of line 213).
\<close>

datatype event = Idle real real real real | Arrived completion real

fun step :: "event \<Rightarrow> master \<Rightarrow> py_error + master" where
  "step (Idle t_test t_mark t_stamp curr_t) s =
     (case (if t_test - checkpointer s > 5 then periodic_checkpoint t_mark t_stamp s else Inr s) of
        Inl e \<Rightarrow> Inl e
      | Inr s' \<Rightarrow> Inr (timeout_scan curr_t s'))"
| "step (Arrived msg now) s =
     (case complete msg now s of
        Inl e \<Rightarrow> Inl e
      | Inr s' \<Rightarrow> dispatch_next (worker msg) s')"

text \<open>The loop condition of line 169.\<close>

definition monitoring :: "master \<Rightarrow> bool" where
  "monitoring s \<longleftrightarrow> 0 \<in> set (maps s) \<or> recieved s < length (log_files s)"

text \<open>
  The loop over the rounds that the list of events describes. It ends when the condition
  fails; events that are left over are not consumed.
\<close>

fun monitor :: "event list \<Rightarrow> master \<Rightarrow> py_error + master" where
  "monitor [] s = Inr s"
| "monitor (e # es) s =
     (if monitoring s
      then (case step e s of Inl err \<Rightarrow> Inl err | Inr s' \<Rightarrow> monitor es s')
      else Inr s)"

subsection \<open>After the loop (lines 229 to 252)\<close>

definition finish :: "nat \<Rightarrow> real \<Rightarrow> master \<Rightarrow> py_error + master" where
  "finish nprocs t_stamp s =
     (case merge_results (total_counts s) (results s) of
        Inl e \<Rightarrow> Inl e
      | Inr tot \<Rightarrow>
         (case split_files (log_files s) (maps s) of
            Inl e \<Rightarrow> Inl e
          | Inr (completed_files, todo_files) \<Rightarrow>
              Inr (s\<lparr>sent := sent s @ map (\<lambda>i. (int i, Stop)) [1..<nprocs],
                     total_counts := tot,
                     folder := save_checkpoint (folder s)
                       \<lparr>timestamp = t_stamp, counts = tot,
                        processed_files = completed_files, pending_files = todo_files\<rparr>\<rparr>)))"

subsection \<open>The worker (lines 270 to 276)\<close>

text \<open>
  What a worker of rank \<open>rank\<close> sends back for a command: the analysis of every file of
  the command, the indices of the command and its rank. \<open>read\<close> gives what reading a
  path yields.
\<close>

definition reply :: "(string \<Rightarrow> file_read) \<Rightarrow> int \<Rightarrow> (string \<times> int) list \<Rightarrow> completion" where
  "reply read rank task =
     \<lparr>result = map (\<lambda>t. analyse_log_file (read (fst t))) task,
      index = map snd task,
      worker = rank\<rparr>"

section \<open>Measuring the aggregate\<close>

text \<open>What merge_counts adds to the level \<open>k\<close> of the total for the result \<open>r\<close>.\<close>

definition contribution :: "string \<Rightarrow> pydict \<Rightarrow> int" where
  "contribution k r = sum_list (map snd (filter (\<lambda>kc. fst kc = k) (entries r)))"

text \<open>The number of units that are done, and the loop invariant that \<open>recieved\<close> counts them.\<close>

definition done_count :: "master \<Rightarrow> nat" where
  "done_count s = length (filter (\<lambda>m. m = -1) (maps s))"

text \<open>
  A completion message that reports units for the first time: one result per index, no
  index twice, and no index that is already done.
\<close>

definition first_report :: "completion \<Rightarrow> master \<Rightarrow> bool" where
  "first_report msg s \<longleftrightarrow>
     1 \<le> worker msg \<and> distinct (index msg) \<and> length (result msg) = length (index msg) \<and>
     list_all (\<lambda>j. 0 \<le> j \<and> nat j < length (maps s) \<and> maps s ! nat j \<noteq> -1) (index msg)"

text \<open>A run of the loop in which every message that is handled is of that kind.\<close>

fun first_report_run :: "event list \<Rightarrow> master \<Rightarrow> bool" where
  "first_report_run [] s = True"
| "first_report_run (e # es) s =
     (if monitoring s
      then (case e of Arrived msg now \<Rightarrow> first_report msg s
                    | Idle t_test t_mark t_stamp curr_t \<Rightarrow> True) \<and>
           (case step e s of Inl err \<Rightarrow> True | Inr s' \<Rightarrow> first_report_run es s')
      else True)"

text \<open>The test of line 197 on the timer at position \<open>k\<close>, the timer of worker \<open>k + 1\<close>.\<close>

definition expired :: "real \<Rightarrow> real list \<Rightarrow> nat \<Rightarrow> bool" where
  "expired curr_t ts k \<longleftrightarrow> curr_t - ts ! k > 5 \<and> ts ! k > 0"

section \<open>Example runs\<close>

text \<open>
  A run over 21 files with two workers (three processes). Each file has one [INFO] line.
  Worker 1 gets the files 0 to 9 at time 1 and worker 2 the files 10 to 19 at time 2;
  file 20 stays pending.
\<close>

definition one_info :: pydict where
  "one_info = analyse_log_file (Lines [''[INFO] started''])"

definition run21_start :: master where
  "run21_start =
     initial_dispatch 3 (\<lambda>i. real i) 2
       \<lparr>log_files = map (\<lambda>c. ''logs/'' @ [c] @ ''.log'') ''abcdefghijklmnopqrstu'',
        maps = replicate 21 0, total_counts = Dict True [], recieved = 0, results = [],
        timers = [], checkpointer = 0, sent = [], folder = NoFolder\<rparr>"

text \<open>
  At time 6.5 no message has come: worker 1 is 5.5 seconds past its dispatch and is timed
  out. Worker 2 then reports the files 10 to 19. The late report of worker 1 for the
  files 0 to 9 follows, and then the report of worker 2 for the same files.
\<close>

definition tick_6_5 :: event where
  "tick_6_5 = Idle 6.5 6.5 6.5 6.5"

definition report_w2_first :: completion where
  "report_w2_first = \<lparr>result = replicate 10 one_info, index = map int [10..<20], worker = 2\<rparr>"

definition report_w1_late :: completion where
  "report_w1_late = \<lparr>result = replicate 10 one_info, index = map int [0..<10], worker = 1\<rparr>"

definition report_w2_second :: completion where
  "report_w2_second = \<lparr>result = replicate 10 one_info, index = map int [0..<10], worker = 2\<rparr>"

definition run21_events :: "event list" where
  "run21_events =
     [tick_6_5, Arrived report_w2_first 6.6, Arrived report_w1_late 6.7,
      Arrived report_w2_second 6.8]"

text \<open>The states of that run after one, two, three and all four rounds.\<close>

definition run21_reclaimed :: master where
  "run21_reclaimed = projr (monitor (take 1 run21_events) run21_start)"

definition run21_reassigned :: master where
  "run21_reassigned = projr (monitor (take 2 run21_events) run21_start)"

definition run21_late :: master where
  "run21_late = projr (monitor (take 3 run21_events) run21_start)"

definition run21_end :: master where
  "run21_end = projr (monitor run21_events run21_start)"

text \<open>Two checkpoint records: an earlier one and the one that a later save writes over it.\<close>

definition ckpt_old :: checkpoint_data where
  "ckpt_old = \<lparr>timestamp = 7, counts = Dict True [(''INFO'', 1)],
                processed_files = [''logs/a.log''], pending_files = [''logs/b.log'']\<rparr>"

definition ckpt_new :: checkpoint_data where
  "ckpt_new = \<lparr>timestamp = 12, counts = Dict True [(''INFO'', 1), (''ERROR'', 1)],
                processed_files = [''logs/a.log'', ''logs/b.log''], pending_files = []\<rparr>"

text \<open>
  A run over 11 files with one worker (two processes): ten files with one [INFO] line
  each and a last one with one [ERROR] line. The worker reports the first ten files at
  time 3; at time 7 a checkpoint is due and is written.
\<close>

definition one_error :: pydict where
  "one_error = analyse_log_file (Lines [''[ERROR] disk read failed''])"

definition run11_listing :: "string list" where
  "run11_listing = map (\<lambda>c. [c] @ ''.log'') ''abcdefghijk''"

definition report_first_ten :: completion where
  "report_first_ten = \<lparr>result = replicate 10 one_info, index = map int [0..<10], worker = 1\<rparr>"

definition report_last :: completion where
  "report_last = \<lparr>result = [one_error], index = [10], worker = 1\<rparr>"

definition run11_start :: master where
  "run11_start = initial_dispatch 2 (\<lambda>i. 1) 1 (projr (start NoFolder ''logs'' run11_listing))"

definition run11_events :: "event list" where
  "run11_events = [Arrived report_first_ten 3, Idle 7 7 7 7, Arrived report_last 8]"

definition run11_end :: master where
  "run11_end = projr (monitor run11_events run11_start)"

text \<open>The checkpoint folder as it is when the run is killed after the round at time 7.\<close>

definition run11_checkpoint :: disk where
  "run11_checkpoint = folder (projr (monitor (take 2 run11_events) run11_start))"

text \<open>The whole of main on rank 0, for a list of loop rounds and the clock readings.\<close>

definition main_master ::
  "disk \<Rightarrow> string \<Rightarrow> string list \<Rightarrow> nat \<Rightarrow> (nat \<Rightarrow> real) \<Rightarrow> real \<Rightarrow> event list \<Rightarrow> real
     \<Rightarrow> start_error + master" where
  "main_master d log_dir listing nprocs clock t es t_end =
     (case start d log_dir listing of
        Inl e \<Rightarrow> Inl e
      | Inr s \<Rightarrow>
         (case monitor es (initial_dispatch nprocs clock t s) of
            Inl e \<Rightarrow> Inl (Raised e)
          | Inr s' \<Rightarrow>
             (case finish nprocs t_end s' of
                Inl e \<Rightarrow> Inl (Raised e)
              | Inr s'' \<Rightarrow> Inr s'')))"

section \<open>Properties of the count dictionaries\<close>

lemma lookup_add_entry:
  "lookup (add_entry es k c) k' = (if k' = k then lookup es k + c else lookup es k')"
  by (simp add: lookup_def add_entry_def update_conv')

lemma count_sum_update_present:
  "map_of es k = Some v \<Longrightarrow> count_sum (AList.update k w es) = count_sum es - v + w"
  by (induction es) (auto simp: count_sum_def)

lemma count_sum_update_absent:
  "map_of es k = None \<Longrightarrow> count_sum (AList.update k w es) = count_sum es + w"
  by (induction es) (auto simp: count_sum_def)

lemma count_sum_add_entry: "count_sum (add_entry es k c) = count_sum es + c"
  by (cases "map_of es k")
     (simp_all add: add_entry_def lookup_def count_sum_update_present count_sum_update_absent)

section \<open>Properties of analyse_log_file\<close>

lemma count_line_INFO:
  "lookup (count_line acc l) ''INFO'' = lookup acc ''INFO'' + (if sublist ''[INFO]'' l then 1 else 0)"
  by (simp add: count_line_def lookup_add_entry)

lemma count_line_WARN:
  "lookup (count_line acc l) ''WARN'' = lookup acc ''WARN'' +
     (if \<not> sublist ''[INFO]'' l \<and> (sublist ''[WARN]'' l \<or> sublist ''[WARNING]'' l) then 1 else 0)"
  by (simp add: count_line_def lookup_add_entry)

lemma count_line_ERROR:
  "lookup (count_line acc l) ''ERROR'' = lookup acc ''ERROR'' +
     (if \<not> sublist ''[INFO]'' l \<and> \<not> sublist ''[WARN]'' l \<and> \<not> sublist ''[WARNING]'' l
         \<and> sublist ''[ERROR]'' l then 1 else 0)"
  by (simp add: count_line_def lookup_add_entry)

lemma count_line_DEBUG:
  "lookup (count_line acc l) ''DEBUG'' = lookup acc ''DEBUG'' +
     (if \<not> sublist ''[INFO]'' l \<and> \<not> sublist ''[WARN]'' l \<and> \<not> sublist ''[WARNING]'' l
         \<and> \<not> sublist ''[ERROR]'' l \<and> sublist ''[DEBUG]'' l then 1 else 0)"
  by (simp add: count_line_def lookup_add_entry)

lemma count_line_sum: "count_sum (count_line acc l) \<le> count_sum acc + 1"
  by (simp add: count_line_def count_sum_add_entry)

lemma foldl_count_line_INFO:
  "lookup (foldl count_line acc ls) ''INFO'' =
     lookup acc ''INFO'' + int (length (filter (\<lambda>l. sublist ''[INFO]'' l) ls))"
  by (induction ls arbitrary: acc) (simp_all add: count_line_INFO)

lemma foldl_count_line_WARN:
  "lookup (foldl count_line acc ls) ''WARN'' =
     lookup acc ''WARN'' + int (length (filter (\<lambda>l. \<not> sublist ''[INFO]'' l \<and>
        (sublist ''[WARN]'' l \<or> sublist ''[WARNING]'' l)) ls))"
  by (induction ls arbitrary: acc) (simp_all add: count_line_WARN)

lemma foldl_count_line_ERROR:
  "lookup (foldl count_line acc ls) ''ERROR'' =
     lookup acc ''ERROR'' + int (length (filter (\<lambda>l. \<not> sublist ''[INFO]'' l \<and>
        \<not> sublist ''[WARN]'' l \<and> \<not> sublist ''[WARNING]'' l \<and> sublist ''[ERROR]'' l) ls))"
  by (induction ls arbitrary: acc) (simp_all add: count_line_ERROR)

lemma foldl_count_line_DEBUG:
  "lookup (foldl count_line acc ls) ''DEBUG'' =
     lookup acc ''DEBUG'' + int (length (filter (\<lambda>l. \<not> sublist ''[INFO]'' l \<and>
        \<not> sublist ''[WARN]'' l \<and> \<not> sublist ''[WARNING]'' l \<and> \<not> sublist ''[ERROR]'' l \<and>
        sublist ''[DEBUG]'' l) ls))"
  by (induction ls arbitrary: acc) (simp_all add: count_line_DEBUG)

lemma foldl_count_line_sum:
  "count_sum (foldl count_line acc ls) \<le> count_sum acc + int (length ls)"
proof (induction ls arbitrary: acc)
  case Nil
  show ?case by simp
next
  case (Cons l ls)
  have "count_sum (foldl count_line (count_line acc l) ls)
          \<le> count_sum (count_line acc l) + int (length ls)"
    by (rule Cons.IH)
  also have "\<dots> \<le> count_sum acc + 1 + int (length ls)"
    using count_line_sum [of acc l] by simp
  finally show ?case by simp
qed

text \<open>
  C9. analyse_log_file puts each line into at most one category, testing [INFO], then
  [WARN] or [WARNING], then [ERROR], then [DEBUG]: the count of a level is the number of
  lines that carry its marker and the marker of no earlier level. Hence the counts sum to
  at most the number of lines read.
\<close>

theorem analyse_log_file_first_level_only:
  "lookup (entries (analyse_log_file f)) ''INFO'' =
     int (length (filter (\<lambda>l. sublist ''[INFO]'' l) (yielded f))) \<and>
   lookup (entries (analyse_log_file f)) ''WARN'' =
     int (length (filter (\<lambda>l. \<not> sublist ''[INFO]'' l \<and>
        (sublist ''[WARN]'' l \<or> sublist ''[WARNING]'' l)) (yielded f))) \<and>
   lookup (entries (analyse_log_file f)) ''ERROR'' =
     int (length (filter (\<lambda>l. \<not> sublist ''[INFO]'' l \<and> \<not> sublist ''[WARN]'' l \<and>
        \<not> sublist ''[WARNING]'' l \<and> sublist ''[ERROR]'' l) (yielded f))) \<and>
   lookup (entries (analyse_log_file f)) ''DEBUG'' =
     int (length (filter (\<lambda>l. \<not> sublist ''[INFO]'' l \<and> \<not> sublist ''[WARN]'' l \<and>
        \<not> sublist ''[WARNING]'' l \<and> \<not> sublist ''[ERROR]'' l \<and> sublist ''[DEBUG]'' l)
        (yielded f))) \<and>
   count_sum (entries (analyse_log_file f)) \<le> int (length (yielded f))"
proof -
  have e: "lookup [] k = 0" for k by (simp add: lookup_def)
  have s: "count_sum (foldl count_line [] (yielded f)) \<le> int (length (yielded f))"
    using foldl_count_line_sum [of "[]" "yielded f"] by (simp add: count_sum_def)
  show ?thesis
    unfolding analyse_log_file_def pydict.sel
    using s
    by (simp only: foldl_count_line_INFO foldl_count_line_WARN foldl_count_line_ERROR
          foldl_count_line_DEBUG e) simp
qed

theorem analyse_log_file_first_level_only_witness:
  "analyse_log_file (Lines [''[INFO] up [ERROR] x'', ''[WARNING] w [DEBUG]'', ''plain'', ''[ERROR] [DEBUG]''])
     = Dict True [(''INFO'', 1), (''WARN'', 1), (''ERROR'', 1)] \<and>
   count_sum (entries (analyse_log_file
       (Lines [''[INFO] up [ERROR] x'', ''[WARNING] w [DEBUG]'', ''plain'', ''[ERROR] [DEBUG]'']))) \<le> 4"
  using analyse_log_file_first_level_only
    [of "Lines [''[INFO] up [ERROR] x'', ''[WARNING] w [DEBUG]'', ''plain'', ''[ERROR] [DEBUG]'']"]
  by (simp add: analyse_log_file_def count_line_def add_entry_def lookup_def sublist_code)

section \<open>Merging into a defaultdict never fails\<close>

lemma add_item_default:
  "add_item (Dict True es) k c = Inr (Dict True (add_entry es k c))"
  by (simp add: add_item_def)

lemma merge_items_default:
  "\<exists>es'. merge_items (Dict True es) kcs = Inr (Dict True es') \<and>
         (\<forall>k. lookup es' k = lookup es k + sum_list (map snd (filter (\<lambda>kc. fst kc = k) kcs)))"
proof (induction kcs arbitrary: es)
  case Nil
  show ?case by simp
next
  case (Cons kc kcs)
  obtain k c where kc: "kc = (k, c)" by (cases kc)
  from Cons.IH [of "add_entry es k c"] obtain es' where
    m: "merge_items (Dict True (add_entry es k c)) kcs = Inr (Dict True es')" and
    l: "\<And>k'. lookup es' k' = lookup (add_entry es k c) k'
            + sum_list (map snd (filter (\<lambda>kc. fst kc = k') kcs))"
    by blast
  have "merge_items (Dict True es) (kc # kcs) = Inr (Dict True es')"
    by (simp add: kc add_item_default m)
  moreover have "lookup es' k' = lookup es k'
       + sum_list (map snd (filter (\<lambda>kc. fst kc = k') (kc # kcs)))" for k'
    by (simp add: l lookup_add_entry kc)
  ultimately show ?case by blast
qed

lemma merge_results_default:
  "\<exists>es'. merge_results (Dict True es) rs = Inr (Dict True es') \<and>
         (\<forall>k. lookup es' k = lookup es k
            + sum_list (map (\<lambda>r. sum_list (map snd (filter (\<lambda>kc. fst kc = k) (entries r)))) rs))"
proof (induction rs arbitrary: es)
  case Nil
  show ?case by simp
next
  case (Cons r rs)
  from merge_items_default [of es "entries r"] obtain es1 where
    m1: "merge_items (Dict True es) (entries r) = Inr (Dict True es1)" and
    l1: "\<And>k. lookup es1 k = lookup es k + sum_list (map snd (filter (\<lambda>kc. fst kc = k) (entries r)))"
    by blast
  from Cons.IH [of es1] obtain es' where
    m2: "merge_results (Dict True es1) rs = Inr (Dict True es')" and
    l2: "\<And>k. lookup es' k = lookup es1 k
            + sum_list (map (\<lambda>r. sum_list (map snd (filter (\<lambda>kc. fst kc = k) (entries r)))) rs)"
    by blast
  have "merge_results (Dict True es) (r # rs) = Inr (Dict True es')"
    by (simp add: merge_counts_def m1 m2)
  moreover have "lookup es' k = lookup es k
       + sum_list (map (\<lambda>r. sum_list (map snd (filter (\<lambda>kc. fst kc = k) (entries r)))) (r # rs))" for k
    by (simp add: l1 l2)
  ultimately show ?case by blast
qed

lemma merge_results_append:
  "merge_results tot (rs @ rs') =
     (case merge_results tot rs of Inl e \<Rightarrow> Inl e | Inr tot' \<Rightarrow> merge_results tot' rs')"
  by (induction rs arbitrary: tot) (auto split: sum.splits)

lemma merge_results_fresh:
  "\<exists>a. merge_results (Dict True []) rs = Inr a \<and>
       (\<forall>k. lookup (entries a) k = sum_list (map (contribution k) rs))"
proof -
  from merge_results_default [of "[]" rs] obtain es' where
    "merge_results (Dict True []) rs = Inr (Dict True es')"
    "\<And>k. lookup es' k = lookup [] k + sum_list (map (contribution k) rs)"
    unfolding contribution_def by blast
  then show ?thesis by (auto simp: lookup_def)
qed

section \<open>The completion handler\<close>

lemma complete_Inr:
  assumes "complete msg now s = Inr s'"
  shows "recieved s' = recieved s + length (result msg)"
    and "results s' = results s @ result msg"
    and "maps s' = map (\<lambda>i. if int i \<in> set (index msg) then -1 else maps s ! i) [0..<length (maps s)]"
    and "log_files s' = log_files s" and "sent s' = sent s" and "folder s' = folder s"
    and "total_counts s' = total_counts s" and "length (timers s') = length (timers s)"
  using assms by (auto simp: complete_def py_store_def Let_def split: sum.splits if_splits)

lemma complete_maps_nth:
  assumes "complete msg now s = Inr s'" and "i < length (maps s)"
  shows "maps s' ! i = (if int i \<in> set (index msg) then -1 else maps s ! i)"
  using assms by (simp add: complete_Inr(3))

lemma complete_length_maps:
  "complete msg now s = Inr s' \<Longrightarrow> length (maps s') = length (maps s)"
  by (simp add: complete_Inr(3))

lemma complete_total:
  assumes "1 \<le> worker msg" and "worker msg \<le> int (length (timers s))"
  shows "\<exists>s'. complete msg now s = Inr s'"
  using assms by (simp add: complete_def py_store_def Let_def)

section \<open>The example runs, evaluated\<close>

lemmas run_defs = start_def initial_dispatch_def first_indices_def dispatch_initial_def initial_batch_def path_join_def monitoring_def complete_def dispatch_next_def timeout_scan_def timeout_worker_def py_store_def py_index_def upt_rec numeral_nat suffix_to_prefix
  periodic_checkpoint_def split_files_def save_checkpoint_def save_trace_def finish_def merge_counts_def add_item_def add_entry_def lookup_def as_loaded_def
  analyse_log_file_def count_line_def sublist_code main_master_def
  next_files_loop.simps

lemmas demo_defs = run11_events_def run21_events_def tick_6_5_def report_w2_first_def report_w1_late_def report_w2_second_def one_info_def one_error_def run11_listing_def report_first_ten_def report_last_def

lemma run21_start_eq:
  "run21_start =
     \<lparr>log_files = map (\<lambda>c. ''logs/'' @ [c] @ ''.log'') ''abcdefghijklmnopqrstu'',
      maps = replicate 10 1 @ replicate 10 2 @ [0], total_counts = Dict True [],
      recieved = 0, results = [], timers = [1, 2, 0], checkpointer = 2,
      sent = [(1, Dispatch (map (\<lambda>(c, i). (''logs/'' @ [c] @ ''.log'', i)) (zip ''abcdefghij'' [0..9]))),
              (2, Dispatch (map (\<lambda>(c, i). (''logs/'' @ [c] @ ''.log'', i)) (zip ''klmnopqrst'' [10..19])))],
      folder = NoFolder\<rparr>"
  by (simp add: run21_start_def run_defs upto.simps)

text \<open>The reports of the example run are the replies of the workers to their commands.\<close>

lemma run21_reports_are_replies:
  "sent run21_start ! 0 = (1, Dispatch (map (\<lambda>(c, i). (''logs/'' @ [c] @ ''.log'', i)) (zip ''abcdefghij'' [0..9])))"
  "report_w1_late = reply (\<lambda>p. Lines [''[INFO] started'']) 1
     (map (\<lambda>(c, i). (''logs/'' @ [c] @ ''.log'', i)) (zip ''abcdefghij'' [0..9]))"
  "sent run21_start ! 1 = (2, Dispatch (map (\<lambda>(c, i). (''logs/'' @ [c] @ ''.log'', i)) (zip ''klmnopqrst'' [10..19])))"
  "report_w2_first = reply (\<lambda>p. Lines [''[INFO] started'']) 2
     (map (\<lambda>(c, i). (''logs/'' @ [c] @ ''.log'', i)) (zip ''klmnopqrst'' [10..19]))"
  by (simp_all add: run21_start_eq reply_def demo_defs upto.simps upt_rec numeral_nat)

lemma run21_reclaimed_eq:
  "run21_reclaimed = run21_start
     \<lparr>maps := replicate 10 0 @ replicate 10 2 @ [0], timers := [0, 2, 0],
      sent := sent run21_start @ [(1, Stop)]\<rparr>"
  by (simp add: run21_reclaimed_def run21_start_eq run_defs demo_defs upto.simps)

lemma run21_reassigned_eq:
  "run21_reassigned = run21_start
     \<lparr>maps := replicate 10 2 @ replicate 10 (-1) @ [0], timers := [0, 6.6, 0],
      recieved := 10, results := replicate 10 (Dict True [(''INFO'', 1)]),
      sent := sent run21_start @ [(1, Stop),
        (2, Dispatch (map (\<lambda>(c, i). (''logs/'' @ [c] @ ''.log'', i)) (zip ''abcdefghij'' [0..9])))]\<rparr>"
  by (simp add: run21_reassigned_def run21_start_eq run_defs demo_defs upto.simps)

lemma run21_late_eq:
  "run21_late = run21_start
     \<lparr>maps := replicate 20 (-1) @ [1], timers := [6.7, 6.6, 0],
      recieved := 20, results := replicate 20 (Dict True [(''INFO'', 1)]),
      sent := sent run21_start @ [(1, Stop),
        (2, Dispatch (map (\<lambda>(c, i). (''logs/'' @ [c] @ ''.log'', i)) (zip ''abcdefghij'' [0..9]))),
        (1, Dispatch [(''logs/u.log'', 20)])]\<rparr>"
  by (simp add: run21_late_def run21_start_eq run_defs demo_defs upto.simps)

lemma run21_end_eq:
  "run21_end = run21_start
     \<lparr>maps := replicate 20 (-1) @ [1], timers := [6.7, 6.8, 0],
      recieved := 30, results := replicate 30 (Dict True [(''INFO'', 1)]),
      sent := sent run21_start @ [(1, Stop),
        (2, Dispatch (map (\<lambda>(c, i). (''logs/'' @ [c] @ ''.log'', i)) (zip ''abcdefghij'' [0..9]))),
        (1, Dispatch [(''logs/u.log'', 20)])]\<rparr>"
  by (simp add: run21_end_def run21_start_eq run_defs demo_defs upto.simps)

lemma run21_monitor: "monitor run21_events run21_start = Inr run21_end"
  by (simp add: run21_end_eq run21_start_eq run_defs demo_defs upto.simps)

section \<open>Completion reports\<close>

text \<open>
  C2, as stated, fails: in the example run the files 0 to 9 are assigned to worker 2 when
  the late report of worker 1 arrives, and the report sets them to -1 and its ten results
  are appended, so the aggregate INFO count goes from 10 to 20.
\<close>

theorem stale_report_from_other_worker_counterexample:
  "maps run21_reassigned ! 0 = 2 \<and> worker report_w1_late = 1 \<and>
   0 \<in> set (index report_w1_late) \<and>
   maps (projr (complete report_w1_late 6.7 run21_reassigned)) ! 0 = -1 \<and>
   merge_results (Dict True []) (results run21_reassigned) = Inr (Dict True [(''INFO'', 10)]) \<and>
   merge_results (Dict True []) (results (projr (complete report_w1_late 6.7 run21_reassigned)))
     = Inr (Dict True [(''INFO'', 20)])"
  by (simp add: run21_reassigned_eq run21_start_eq run_defs demo_defs)

text \<open>
  C2, amended. A completion message that names an index assigned to another worker is
  accepted like any other: the index becomes -1 (done), the results of the message are
  appended to \<open>results\<close>, from which the aggregate is merged, and \<open>recieved\<close> grows by
  their number.
\<close>

theorem complete_accepts_other_owner:
  assumes "1 \<le> worker msg" and "worker msg \<le> int (length (timers s))"
    and "i < length (maps s)" and "int i \<in> set (index msg)"
    and "1 \<le> maps s ! i" and "maps s ! i \<noteq> worker msg"
  shows "\<exists>s'. complete msg now s = Inr s' \<and> maps s' ! i = -1 \<and>
           results s' = results s @ result msg \<and>
           recieved s' = recieved s + length (result msg)"
proof -
  from complete_total [OF assms(1,2)] obtain s' where c: "complete msg now s = Inr s'"
    by blast
  have "maps s' ! i = -1"
    using complete_maps_nth [OF c assms(3)] assms(4) by simp
  with c complete_Inr(1,2) [OF c] show ?thesis by blast
qed

theorem complete_accepts_other_owner_witness:
  "1 \<le> worker report_w1_late \<and> worker report_w1_late \<le> int (length (timers run21_reassigned)) \<and>
   0 < length (maps run21_reassigned) \<and> int 0 \<in> set (index report_w1_late) \<and>
   1 \<le> maps run21_reassigned ! 0 \<and> maps run21_reassigned ! 0 \<noteq> worker report_w1_late \<and>
   (\<exists>s'. complete report_w1_late 6.7 run21_reassigned = Inr s' \<and> maps s' ! 0 = -1 \<and>
      results s' = results run21_reassigned @ result report_w1_late \<and>
      recieved s' = recieved run21_reassigned + length (result report_w1_late))"
proof -
  have h: "1 \<le> worker report_w1_late" "worker report_w1_late \<le> int (length (timers run21_reassigned))"
    "0 < length (maps run21_reassigned)" "int 0 \<in> set (index report_w1_late)"
    "1 \<le> maps run21_reassigned ! 0" "maps run21_reassigned ! 0 \<noteq> worker report_w1_late"
    by (simp_all add: run21_reassigned_eq report_w1_late_def numeral_nat)
  from complete_accepts_other_owner [OF h, of "6.7"] h show ?thesis by blast
qed


section \<open>Dispatch of the next batch\<close>

declare next_files_loop.simps [simp del]

lemma next_files_loop_eq:
  "length nf \<le> 10 \<Longrightarrow>
   next_files_loop mp nf i = nf @ take (10 - length nf) (filter (\<lambda>j. mp ! j = 0) [i..<length mp])"
proof (induction mp nf i rule: next_files_loop.induct)
  case (1 mp nf i)
  show ?case
  proof (cases "length nf < 10 \<and> i < length mp")
    case False
    then show ?thesis
      using "1.prems" by (subst next_files_loop.simps) auto
  next
    case True
    then have u: "[i..<length mp] = i # [Suc i..<length mp]"
      by (simp add: upt_conv_Cons)
    obtain k where k: "10 - length nf = Suc k"
      using True by (cases "10 - length nf") auto
    have k': "9 - length nf = k"
      using k by arith
    have "next_files_loop mp nf i =
            next_files_loop mp (if mp ! i = 0 then nf @ [i] else nf) (i + 1)"
      using True by (subst next_files_loop.simps) simp
    also have "\<dots> = (if mp ! i = 0 then nf @ [i] else nf) @
         take (10 - length (if mp ! i = 0 then nf @ [i] else nf))
           (filter (\<lambda>j. mp ! j = 0) [i + 1..<length mp])"
      using True by (intro "1.IH") auto
    also have "\<dots> = nf @ take (10 - length nf) (filter (\<lambda>j. mp ! j = 0) [i..<length mp])"
      by (simp add: u k k')
    finally show ?thesis .
  qed
qed

lemma next_files_eq:
  "next_files_loop mp [] 0 = take 10 (filter (\<lambda>j. mp ! j = 0) [0..<length mp])"
  using next_files_loop_eq [of "[]" mp 0] by simp

lemma next_files_pending:
  "j \<in> set (next_files_loop mp [] 0) \<Longrightarrow> j < length mp \<and> mp ! j = 0"
  unfolding next_files_eq by (auto dest: in_set_takeD)

lemma dispatch_next_total:
  assumes "length (maps s) \<le> length (log_files s)"
  shows "\<exists>s'. dispatch_next w s = Inr s'"
proof -
  have "\<not> list_ex (\<lambda>j. length (log_files s) \<le> j) (next_files_loop (maps s) [] 0)"
    using assms next_files_pending [of _ "maps s"] by (fastforce simp: list_ex_iff)
  then show ?thesis by (simp add: dispatch_next_def Let_def)
qed

lemma dispatch_next_Inr:
  assumes "dispatch_next w s = Inr s'"
  shows "maps s' = (if 0 \<in> set (maps s)
            then map (\<lambda>i. if i \<in> set (take 10 (filter (\<lambda>j. maps s ! j = 0) [0..<length (maps s)]))
                          then w else maps s ! i) [0..<length (maps s)]
            else maps s)"
    and "sent s' = (if 0 \<in> set (maps s)
            then sent s @ [(w, Dispatch (map (\<lambda>j. (log_files s ! j, int j))
                    (take 10 (filter (\<lambda>j. maps s ! j = 0) [0..<length (maps s)]))))]
            else sent s)"
    and "timers s' = timers s" and "recieved s' = recieved s" and "results s' = results s"
    and "log_files s' = log_files s" and "folder s' = folder s"
    and "total_counts s' = total_counts s"
  using assms
  by (auto simp: dispatch_next_def Let_def next_files_eq split: if_splits)

lemma dispatch_next_length:
  "dispatch_next w s = Inr s' \<Longrightarrow> length (maps s') = length (maps s)"
  by (simp add: dispatch_next_Inr(1))

lemma dispatch_next_nth:
  assumes "dispatch_next w s = Inr s'" and "i < length (maps s)"
  shows "maps s' ! i = maps s ! i \<or> (maps s ! i = 0 \<and> maps s' ! i = w)"
proof (cases "0 \<in> set (maps s) \<and> i \<in> set (take 10 (filter (\<lambda>j. maps s ! j = 0) [0..<length (maps s)]))")
  case True
  then have "maps s ! i = 0" by (auto dest: in_set_takeD)
  moreover have "maps s' ! i = w"
    using True assms(2) by (simp add: dispatch_next_Inr(1) [OF assms(1)])
  ultimately show ?thesis by simp
next
  case False
  then have "maps s' ! i = maps s ! i"
    using assms(2) by (auto simp: dispatch_next_Inr(1) [OF assms(1)])
  then show ?thesis by simp
qed

section \<open>Completion from a worker that was timed out\<close>

lemma step_Arrived_total:
  assumes "1 \<le> worker msg" and "worker msg \<le> int (length (timers s))"
    and "length (maps s) \<le> length (log_files s)"
  shows "\<exists>s1 s'. complete msg now s = Inr s1 \<and> dispatch_next (worker msg) s1 = Inr s' \<and>
           step (Arrived msg now) s = Inr s'"
proof -
  from complete_total [OF assms(1,2)] obtain s1 where c: "complete msg now s = Inr s1"
    by blast
  have "length (maps s1) \<le> length (log_files s1)"
    using assms(3) by (simp add: complete_length_maps [OF c] complete_Inr(4) [OF c])
  from dispatch_next_total [OF this] obtain s' where "dispatch_next (worker msg) s1 = Inr s'"
    by blast
  with c show ?thesis by auto
qed

lemma complete_timer:
  assumes "complete msg now s = Inr s'" and "1 \<le> worker msg"
  shows "timers s' ! nat (worker msg - 1) = now"
  using assms by (auto simp: complete_def py_store_def Let_def split: if_splits)

lemma complete_pending:
  assumes "complete msg now s = Inr s1"
  shows "filter (\<lambda>j. maps s1 ! j = 0) [0..<length (maps s1)] =
         filter (\<lambda>j. maps s ! j = 0 \<and> int j \<notin> set (index msg)) [0..<length (maps s)]"
  unfolding complete_length_maps [OF assms]
  by (rule filter_cong) (auto simp: complete_maps_nth [OF assms])

lemma zero_in_set_iff_filter:
  "0 \<in> set mp \<longleftrightarrow> filter (\<lambda>j. mp ! j = 0) [0..<length mp] \<noteq> []"
  by (auto simp: filter_empty_conv in_set_conv_nth)

text \<open>
  C10. A completion message is handled without regard to the timer of its sender, so
  also when the sender was timed out before (timer 0, units reclaimed): the timer of the
  sender is set to the clock reading, and when a file is still pending after the named
  indices are marked, the up to ten lowest pending indices are sent to the sender as its
  next command and assigned to it. Nothing but the rank in the message identifies the
  sender.
\<close>

theorem completion_from_timed_out_worker:
  assumes "1 \<le> worker msg" and "worker msg \<le> int (length (timers s))"
    and "length (maps s) \<le> length (log_files s)"
    and "timers s ! nat (worker msg - 1) = 0"
  shows "\<exists>s'. step (Arrived msg now) s = Inr s' \<and>
           timers s' ! nat (worker msg - 1) = now \<and>
           (let pending = filter (\<lambda>j. maps s ! j = 0 \<and> int j \<notin> set (index msg))
                            [0..<length (maps s)]
            in if pending \<noteq> []
               then sent s' = sent s @
                      [(worker msg, Dispatch (map (\<lambda>j. (log_files s ! j, int j)) (take 10 pending)))]
                    \<and> (\<forall>j \<in> set (take 10 pending). maps s' ! j = worker msg)
               else sent s' = sent s)"
proof -
  from step_Arrived_total [OF assms(1-3)] obtain s1 s' where
    c: "complete msg now s = Inr s1" and d: "dispatch_next (worker msg) s1 = Inr s'" and
    st: "step (Arrived msg now) s = Inr s'"
    by blast
  let ?pending = "filter (\<lambda>j. maps s ! j = 0 \<and> int j \<notin> set (index msg)) [0..<length (maps s)]"
  have p: "filter (\<lambda>j. maps s1 ! j = 0) [0..<length (maps s1)] = ?pending"
    by (rule complete_pending [OF c])
  have z: "0 \<in> set (maps s1) \<longleftrightarrow> ?pending \<noteq> []"
    using zero_in_set_iff_filter [of "maps s1"] p by simp
  have t: "timers s' ! nat (worker msg - 1) = now"
    using complete_timer [OF c assms(1)] dispatch_next_Inr(3) [OF d] by simp
  have snt: "?pending \<noteq> [] \<Longrightarrow> sent s' = sent s @
      [(worker msg, Dispatch (map (\<lambda>j. (log_files s ! j, int j)) (take 10 ?pending)))]"
    using dispatch_next_Inr(2) [OF d] z p complete_Inr(4,5) [OF c] by simp
  have snt': "?pending = [] \<Longrightarrow> sent s' = sent s"
    using dispatch_next_Inr(2) [OF d] z complete_Inr(5) [OF c] by simp
  have asg: "maps s' ! j = worker msg" if "?pending \<noteq> []" and "j \<in> set (take 10 ?pending)" for j
  proof -
    have "j < length (maps s1)"
      using that(2) complete_length_maps [OF c] by (auto dest: in_set_takeD)
    then show ?thesis
      using that z p by (simp add: dispatch_next_Inr(1) [OF d])
  qed
  show ?thesis
    using st t snt snt' asg by (auto simp: Let_def)
qed

theorem completion_from_timed_out_worker_witness:
  "1 \<le> worker report_w1_late \<and> worker report_w1_late \<le> int (length (timers run21_reassigned)) \<and>
   length (maps run21_reassigned) \<le> length (log_files run21_reassigned) \<and>
   timers run21_reassigned ! nat (worker report_w1_late - 1) = 0 \<and>
   (\<exists>s'. step (Arrived report_w1_late 6.7) run21_reassigned = Inr s' \<and>
      timers s' ! 0 = 6.7 \<and>
      sent s' = sent run21_reassigned @ [(1, Dispatch [(''logs/u.log'', 20)])] \<and>
      maps s' ! 20 = 1)"
proof -
  have h: "1 \<le> worker report_w1_late"
    "worker report_w1_late \<le> int (length (timers run21_reassigned))"
    "length (maps run21_reassigned) \<le> length (log_files run21_reassigned)"
    "timers run21_reassigned ! nat (worker report_w1_late - 1) = 0"
    by (simp_all add: run21_reassigned_eq run21_start_eq report_w1_late_def)
  have p: "filter (\<lambda>j. maps run21_reassigned ! j = 0 \<and> int j \<notin> set (index report_w1_late))
             [0..<length (maps run21_reassigned)] = [20]"
    by (simp add: run21_reassigned_eq run21_start_eq report_w1_late_def upt_rec numeral_nat)
  have w: "worker report_w1_late = 1" "log_files run21_reassigned ! 20 = ''logs/u.log''"
    by (simp_all add: run21_reassigned_eq run21_start_eq report_w1_late_def numeral_nat)
  from completion_from_timed_out_worker [OF h, of "6.7"] h show ?thesis
    by (simp add: p w Let_def)
qed

section \<open>The timeout scan\<close>

lemma py_index_first:
  assumes "k < length xs" and "xs ! k = x" and "\<And>j. j < k \<Longrightarrow> xs ! j \<noteq> x"
  shows "py_index xs x = k"
proof -
  have "takeWhile (\<lambda>y. y \<noteq> x) xs = take k xs"
    using assms by (intro takeWhile_eq_take_P_nth) auto
  then show ?thesis
    using assms(1) by (simp add: py_index_def)
qed

lemma timeout_worker_alt:
  "timeout_worker c s pos =
     (if expired c (timers s) pos
      then s\<lparr>sent := sent s @ [(int (py_index (timers s) (timers s ! pos)) + 1, Stop)],
             maps := map (\<lambda>m. if m = int (py_index (timers s) (timers s ! pos)) + 1 then 0 else m)
                       (maps s),
             timers := (timers s)[py_index (timers s) (timers s ! pos) := 0]\<rparr>
      else s)"
  by (simp add: timeout_worker_def expired_def Let_def)

text \<open>The state after the rounds for the positions below \<open>k\<close>.\<close>

lemma timeout_rounds:
  assumes "k \<le> length (timers s)"
  shows "timers (foldl (timeout_worker c) s [0..<k]) =
           map (\<lambda>j. if j < k \<and> expired c (timers s) j then 0 else timers s ! j)
             [0..<length (timers s)] \<and>
         sent (foldl (timeout_worker c) s [0..<k]) =
           sent s @ map (\<lambda>j. (int j + 1, Stop)) (filter (expired c (timers s)) [0..<k]) \<and>
         maps (foldl (timeout_worker c) s [0..<k]) =
           map (\<lambda>m. if 1 \<le> m \<and> nat (m - 1) < k \<and> expired c (timers s) (nat (m - 1))
                     then 0 else m) (maps s) \<and>
         recieved (foldl (timeout_worker c) s [0..<k]) = recieved s \<and>
         results (foldl (timeout_worker c) s [0..<k]) = results s \<and>
         log_files (foldl (timeout_worker c) s [0..<k]) = log_files s \<and>
         folder (foldl (timeout_worker c) s [0..<k]) = folder s \<and>
         total_counts (foldl (timeout_worker c) s [0..<k]) = total_counts s \<and>
         checkpointer (foldl (timeout_worker c) s [0..<k]) = checkpointer s"
  using assms
proof (induction k)
  case 0
  show ?case by (simp add: map_nth)
next
  case (Suc k)
  let ?ts = "timers s"
  let ?sk = "foldl (timeout_worker c) s [0..<k]"
  have k: "k < length ?ts" using Suc.prems by simp
  from Suc.IH k have
    T: "timers ?sk = map (\<lambda>j. if j < k \<and> expired c ?ts j then 0 else ?ts ! j) [0..<length ?ts]" and
    S: "sent ?sk = sent s @ map (\<lambda>j. (int j + 1, Stop)) (filter (expired c ?ts) [0..<k])" and
    M: "maps ?sk = map (\<lambda>m. if 1 \<le> m \<and> nat (m - 1) < k \<and> expired c ?ts (nat (m - 1))
                     then 0 else m) (maps s)" and
    R: "recieved ?sk = recieved s" "results ?sk = results s" "log_files ?sk = log_files s"
       "folder ?sk = folder s" "total_counts ?sk = total_counts s"
       "checkpointer ?sk = checkpointer s"
    by simp_all
  have tk: "timers ?sk ! k = ?ts ! k" using k by (simp add: T)
  have ex: "expired c (timers ?sk) k \<longleftrightarrow> expired c ?ts k"
    by (simp add: expired_def tk)
  have step: "foldl (timeout_worker c) s [0..<Suc k] = timeout_worker c ?sk k" by simp
  show ?case
  proof (cases "expired c ?ts k")
    case False
    then have same: "timeout_worker c ?sk k = ?sk"
      by (simp add: timeout_worker_alt ex)
    have t: "(\<lambda>j. if j < Suc k \<and> expired c ?ts j then 0 else ?ts ! j) =
             (\<lambda>j. if j < k \<and> expired c ?ts j then 0 else ?ts ! j)"
      using False by (auto simp: less_Suc_eq)
    have m: "(\<lambda>m. if 1 \<le> m \<and> nat (m - 1) < Suc k \<and> expired c ?ts (nat (m - 1)) then 0 else m) =
             (\<lambda>m. if 1 \<le> m \<and> nat (m - 1) < k \<and> expired c ?ts (nat (m - 1)) then 0 else m)"
      using False by (auto simp: less_Suc_eq)
    show ?thesis
      unfolding step same t m using T S M R False by simp
  next
    case True
    have first: "py_index (timers ?sk) (?ts ! k) = k"
    proof (rule py_index_first)
      show "k < length (timers ?sk)" using k by (simp add: T)
      show "timers ?sk ! k = ?ts ! k" by (rule tk)
    next
      fix j assume j: "j < k"
      show "timers ?sk ! j \<noteq> ?ts ! k"
      proof (cases "expired c ?ts j")
        case True
        then have "timers ?sk ! j = 0" using j k by (simp add: T)
        moreover have "?ts ! k > 0" using \<open>expired c ?ts k\<close> by (simp add: expired_def)
        ultimately show ?thesis by simp
      next
        case False
        then have "timers ?sk ! j = ?ts ! j" using j k by (simp add: T)
        moreover have "?ts ! j \<noteq> ?ts ! k"
          using False \<open>expired c ?ts k\<close> by (auto simp: expired_def)
        ultimately show ?thesis by simp
      qed
    qed
    have unf: "timeout_worker c ?sk k =
        ?sk\<lparr>sent := sent ?sk @ [(int k + 1, Stop)],
            maps := map (\<lambda>m. if m = int k + 1 then 0 else m) (maps ?sk),
            timers := (timers ?sk)[k := 0]\<rparr>"
      using True by (simp add: timeout_worker_alt ex tk first)
    have t: "(timers ?sk)[k := 0] =
             map (\<lambda>j. if j < Suc k \<and> expired c ?ts j then 0 else ?ts ! j) [0..<length ?ts]"
      using True k by (auto simp: T intro!: nth_equalityI simp: nth_list_update less_Suc_eq)
    have m: "map (\<lambda>m. if m = int k + 1 then 0 else m) (maps ?sk) =
             map (\<lambda>m. if 1 \<le> m \<and> nat (m - 1) < Suc k \<and> expired c ?ts (nat (m - 1)) then 0 else m)
               (maps s)"
      unfolding M map_map
    proof (rule map_cong [OF refl])
      fix m :: int
      have "nat (m - 1) = k \<longleftrightarrow> m = int k + 1" if "1 \<le> m"
        using that by auto
      then show "((\<lambda>m. if m = int k + 1 then 0 else m) \<circ>
             (\<lambda>m. if 1 \<le> m \<and> nat (m - 1) < k \<and> expired c ?ts (nat (m - 1)) then 0 else m)) m =
            (if 1 \<le> m \<and> nat (m - 1) < Suc k \<and> expired c ?ts (nat (m - 1)) then 0 else m)"
        using True by (auto simp: less_Suc_eq)
    qed
    show ?thesis
      unfolding step unf using t m S R True by simp
  qed
qed

lemma timeout_scan_fields:
  "recieved (timeout_scan c s) = recieved s" "results (timeout_scan c s) = results s"
  "log_files (timeout_scan c s) = log_files s" "folder (timeout_scan c s) = folder s"
  "total_counts (timeout_scan c s) = total_counts s"
  "length (maps (timeout_scan c s)) = length (maps s)"
  using timeout_rounds [of "length (timers s)" s c] by (simp_all add: timeout_scan_def)

lemma timeout_scan_maps:
  "maps (timeout_scan c s) =
     map (\<lambda>m. if 1 \<le> m \<and> nat (m - 1) < length (timers s) \<and> expired c (timers s) (nat (m - 1))
               then 0 else m) (maps s)"
  using timeout_rounds [of "length (timers s)" s c] by (simp add: timeout_scan_def)

text \<open>
  C6, as stated, fails: after the late report in the example run worker 2 holds no file
  (no entry of \<open>maps\<close> is 2), but its timer was set at 6.6, and the scan at 11.65 sends it
  the stop signal and clears its timer.
\<close>

theorem timeout_without_units_counterexample:
  "2 \<notin> set (maps run21_late) \<and>
   sent (timeout_scan 11.65 run21_late) = sent run21_late @ [(2, Stop)] \<and>
   timers run21_late = [6.7, 6.6, 0] \<and>
   timers (timeout_scan 11.65 run21_late) = [6.7, 0, 0]"
  by (simp add: run21_late_eq run21_start_eq timeout_scan_def timeout_worker_def py_index_def
        upt_rec numeral_nat)

text \<open>
  C6, amended. On a timeout scan with clock reading \<open>c\<close>, worker \<open>k + 1\<close> is declared
  dead exactly when its timer is positive and more than 5 below \<open>c\<close>, whether or not a
  file is assigned to it. Each worker declared dead is sent the stop signal, in rank
  order, its timer is set to 0 and every entry of \<open>maps\<close> that holds its rank becomes 0
  (pending); the other timers and entries stay as they are.
\<close>

theorem timeout_scan_effect:
  "timers (timeout_scan c s) =
     map (\<lambda>k. if expired c (timers s) k then 0 else timers s ! k) [0..<length (timers s)] \<and>
   sent (timeout_scan c s) =
     sent s @ map (\<lambda>k. (int k + 1, Stop)) (filter (expired c (timers s)) [0..<length (timers s)]) \<and>
   maps (timeout_scan c s) =
     map (\<lambda>m. if 1 \<le> m \<and> nat (m - 1) < length (timers s) \<and> expired c (timers s) (nat (m - 1))
               then 0 else m) (maps s)"
proof -
  have "(\<lambda>k. if k < length (timers s) \<and> expired c (timers s) k then 0 else timers s ! k) k =
        (\<lambda>k. if expired c (timers s) k then 0 else timers s ! k) k"
    if "k \<in> set [0..<length (timers s)]" for k
    using that by simp
  then have "map (\<lambda>k. if k < length (timers s) \<and> expired c (timers s) k then 0 else timers s ! k)
          [0..<length (timers s)] =
        map (\<lambda>k. if expired c (timers s) k then 0 else timers s ! k) [0..<length (timers s)]"
    by (rule map_cong [OF refl])
  then show ?thesis
    using timeout_rounds [of "length (timers s)" s c] by (simp add: timeout_scan_def)
qed

theorem timeout_scan_effect_witness:
  "expired 6.5 (timers run21_start) 0 \<and> \<not> expired 6.5 (timers run21_start) 1 \<and>
   timers (timeout_scan 6.5 run21_start) = [0, 2, 0] \<and>
   sent (timeout_scan 6.5 run21_start) = sent run21_start @ [(1, Stop)] \<and>
   maps (timeout_scan 6.5 run21_start) = replicate 10 0 @ replicate 10 2 @ [0]"
  using timeout_scan_effect [of "6.5" run21_start]
  by (simp add: run21_start_eq expired_def upt_rec numeral_nat)

section \<open>Transitions of a unit\<close>

lemma periodic_checkpoint_Inr:
  assumes "periodic_checkpoint t_mark t_stamp s = Inr s'"
  shows "maps s' = maps s" and "recieved s' = recieved s" and "results s' = results s"
    and "log_files s' = log_files s" and "timers s' = timers s" and "sent s' = sent s"
    and "total_counts s' = total_counts s"
  using assms by (auto simp: periodic_checkpoint_def split: sum.splits prod.splits)

lemma step_Idle_maps:
  assumes "step (Idle t1 t2 t3 c) s = Inr s'"
  shows "\<exists>ts. maps s' =
     map (\<lambda>m. if 1 \<le> m \<and> nat (m - 1) < length ts \<and> expired c ts (nat (m - 1)) then 0 else m)
       (maps s)"
proof (cases "t1 - checkpointer s > 5")
  case False
  then have "s' = timeout_scan c s" using assms by simp
  then show ?thesis using timeout_scan_maps [of c s] by blast
next
  case True
  then obtain s1 where p: "periodic_checkpoint t2 t3 s = Inr s1" and "s' = timeout_scan c s1"
    using assms by (auto split: sum.splits)
  then show ?thesis
    using timeout_scan_maps [of c s1] periodic_checkpoint_Inr(1) [OF p] by auto
qed

lemma step_Idle_nth:
  assumes "step (Idle t1 t2 t3 c) s = Inr s'" and "i < length (maps s)"
  shows "length (maps s') = length (maps s) \<and>
         (maps s' ! i = maps s ! i \<or> (1 \<le> maps s ! i \<and> maps s' ! i = 0))"
proof -
  from step_Idle_maps [OF assms(1)] obtain ts where
    "maps s' = map (\<lambda>m. if 1 \<le> m \<and> nat (m - 1) < length ts \<and> expired c ts (nat (m - 1))
                           then 0 else m) (maps s)"
    by blast
  then show ?thesis using assms(2) by simp
qed

lemma step_Arrived_nth:
  assumes "step (Arrived msg now) s = Inr s'" and "i < length (maps s)"
  shows "length (maps s') = length (maps s) \<and>
         (if int i \<in> set (index msg) then maps s' ! i = -1
          else maps s' ! i = maps s ! i \<or> (maps s ! i = 0 \<and> maps s' ! i = worker msg))"
proof -
  from assms(1) obtain s1 where c: "complete msg now s = Inr s1"
    and d: "dispatch_next (worker msg) s1 = Inr s'"
    by (auto split: sum.splits)
  have l1: "length (maps s1) = length (maps s)" by (rule complete_length_maps [OF c])
  have i1: "i < length (maps s1)" using assms(2) l1 by simp
  have m1: "maps s1 ! i = (if int i \<in> set (index msg) then -1 else maps s ! i)"
    by (rule complete_maps_nth [OF c assms(2)])
  show ?thesis
    using dispatch_next_nth [OF d i1] dispatch_next_length [OF d] l1 m1 by auto
qed

lemma first_indices_loop_subset:
  "x \<in> set (first_indices_loop limit mp acc js) \<Longrightarrow> x \<in> set acc \<or> (x \<in> set js \<and> mp ! x = 0)"
proof (induction js arbitrary: acc)
  case Nil
  then show ?case by simp
next
  case (Cons j js)
  show ?case
  proof (cases "mp ! j = 0")
    case False
    then have "x \<in> set (first_indices_loop limit mp acc js)"
      using Cons.prems by simp
    from Cons.IH [OF this] show ?thesis by auto
  next
    case True
    show ?thesis
    proof (cases "length (acc @ [j]) = limit")
      case True
      then have "x \<in> set (acc @ [j])"
        using Cons.prems \<open>mp ! j = 0\<close> by simp
      then show ?thesis using \<open>mp ! j = 0\<close> by auto
    next
      case False
      then have "x \<in> set (first_indices_loop limit mp (acc @ [j]) js)"
        using Cons.prems True by simp
      from Cons.IH [OF this] show ?thesis using True by auto
    qed
  qed
qed

lemma first_indices_pending:
  "j \<in> set (first_indices nprocs s) \<Longrightarrow> maps s ! j = 0"
  using first_indices_loop_subset [of j "10 * (nprocs - 1)" "maps s" "[]" "[0..<length (log_files s)]"]
  by (auto simp: first_indices_def)

lemma foldl_update_length:
  "length (foldl (\<lambda>mp j. mp[j := v]) mp js) = length mp"
  by (induction js arbitrary: mp) auto

lemma foldl_update_nth:
  "i < length mp \<Longrightarrow>
   foldl (\<lambda>mp j. mp[j := v]) mp js ! i = (if i \<in> set js then v else mp ! i)"
  by (induction js arbitrary: mp) (auto simp: foldl_update_length nth_list_update)

lemma dispatch_initial_nth:
  assumes "i < length (maps s)"
  shows "length (maps (dispatch_initial fi clock s w)) = length (maps s) \<and>
         (maps (dispatch_initial fi clock s w) ! i = maps s ! i \<or>
          (i \<in> set fi \<and> maps (dispatch_initial fi clock s w) ! i = int w))"
  using assms
  by (auto simp: dispatch_initial_def initial_batch_def foldl_update_length foldl_update_nth)

lemma dispatch_initial_rounds:
  assumes "i < length (maps s)"
  shows "length (maps (foldl (dispatch_initial fi clock) s ws)) = length (maps s) \<and>
         (maps (foldl (dispatch_initial fi clock) s ws) ! i = maps s ! i \<or>
          (i \<in> set fi \<and> (\<exists>w \<in> set ws. maps (foldl (dispatch_initial fi clock) s ws) ! i = int w)))"
  using assms
proof (induction ws arbitrary: s)
  case Nil
  show ?case by simp
next
  case (Cons w ws)
  let ?s1 = "dispatch_initial fi clock s w"
  from dispatch_initial_nth [OF Cons.prems, of fi clock w] have
    l: "length (maps ?s1) = length (maps s)" and
    d: "maps ?s1 ! i = maps s ! i \<or> (i \<in> set fi \<and> maps ?s1 ! i = int w)"
    by simp_all
  have "i < length (maps ?s1)" using l Cons.prems by simp
  from Cons.IH [OF this] l d show ?case by auto
qed

lemma initial_dispatch_nth:
  assumes "i < length (maps s)"
  shows "length (maps (initial_dispatch nprocs clock t s)) = length (maps s) \<and>
         (maps (initial_dispatch nprocs clock t s) ! i = maps s ! i \<or>
          (maps s ! i = 0 \<and> 1 \<le> maps (initial_dispatch nprocs clock t s) ! i))"
proof -
  let ?s0 = "s\<lparr>timers := replicate nprocs 0, results := []\<rparr>"
  have i0: "i < length (maps ?s0)" using assms by simp
  from dispatch_initial_rounds [OF i0, of "first_indices nprocs s" clock "[1..<nprocs]"]
    first_indices_pending [of i nprocs s]
  show ?thesis
    by (auto simp: initial_dispatch_def)
qed

text \<open>
  C5, as stated, fails: after worker 1 is timed out in the example run, the file 0 is
  pending; the late report of worker 1 then sets it to done without an assignment in
  between.
\<close>

theorem pending_to_done_counterexample:
  "maps run21_reclaimed ! 0 = 0 \<and> 0 \<in> set (index report_w1_late) \<and>
   maps (projr (step (Arrived report_w1_late 6.55) run21_reclaimed)) ! 0 = -1"
  by (simp add: run21_reclaimed_eq run21_start_eq run_defs report_w1_late_def one_info_def)

text \<open>
  C5, amended. Every change of an entry of \<open>maps\<close> is one of these: pending to
  assigned, in the initial dispatch or in the dispatch to the worker whose message was
  just handled; assigned to pending, in a timeout scan; and pending or assigned (to any
  worker) to done, by a completion message that names the index. A done entry stays done.
\<close>

theorem unit_transitions:
  assumes "i < length (maps s)"
  shows "(initial_dispatch nprocs clock t s = s' \<longrightarrow>
            maps s' ! i = maps s ! i \<or> (maps s ! i = 0 \<and> 1 \<le> maps s' ! i)) \<and>
         (step (Idle t1 t2 t3 c) s = Inr s' \<longrightarrow>
            maps s' ! i = maps s ! i \<or> (1 \<le> maps s ! i \<and> maps s' ! i = 0)) \<and>
         (step (Arrived msg now) s = Inr s' \<longrightarrow>
            (if int i \<in> set (index msg) then maps s' ! i = -1
             else maps s' ! i = maps s ! i \<or> (maps s ! i = 0 \<and> maps s' ! i = worker msg))) \<and>
         ((initial_dispatch nprocs clock t s = s' \<or> step e s = Inr s') \<and> maps s ! i = -1
            \<longrightarrow> maps s' ! i = -1)"
proof -
  have a: "maps s' ! i = maps s ! i \<or> (maps s ! i = 0 \<and> 1 \<le> maps s' ! i)"
    if "initial_dispatch nprocs clock t s = s'"
    using initial_dispatch_nth [OF assms, of nprocs clock t] that by simp
  have b: "maps s' ! i = maps s ! i \<or> (1 \<le> maps s ! i \<and> maps s' ! i = 0)"
    if "step (Idle t1 t2 t3 c) s = Inr s'" for t1 t2 t3 c
    using step_Idle_nth [OF that assms] by simp
  have c: "if int i \<in> set (index msg) then maps s' ! i = -1
           else maps s' ! i = maps s ! i \<or> (maps s ! i = 0 \<and> maps s' ! i = worker msg)"
    if "step (Arrived msg now) s = Inr s'" for msg now
    using step_Arrived_nth [OF that assms] by simp
  have d: "maps s' ! i = -1" if "step e s = Inr s'" and "maps s ! i = -1"
  proof (cases e)
    case (Idle t1 t2 t3 c)
    with b [of t1 t2 t3 c] that show ?thesis by auto
  next
    case (Arrived msg now)
    with c [of msg now] that show ?thesis by (auto split: if_splits)
  qed
  show ?thesis using a b c d by auto
qed

theorem unit_transitions_witness:
  "0 < length (maps run21_start) \<and>
   step (Idle 6.5 6.5 6.5 6.5) run21_start = Inr run21_reclaimed \<and>
   maps run21_start ! 0 = 1 \<and> maps run21_reclaimed ! 0 = 0 \<and>
   (maps run21_reclaimed ! 0 = maps run21_start ! 0 \<or>
    (1 \<le> maps run21_start ! 0 \<and> maps run21_reclaimed ! 0 = 0))"
proof -
  have h: "0 < length (maps run21_start)"
    by (simp add: run21_start_eq)
  have st: "step (Idle 6.5 6.5 6.5 6.5) run21_start = Inr run21_reclaimed"
    by (simp add: run21_reclaimed_eq run21_start_eq run_defs)
  have v: "maps run21_start ! 0 = 1" "maps run21_reclaimed ! 0 = 0"
    by (simp_all add: run21_start_eq run21_reclaimed_eq nth_append)
  from unit_transitions [OF h, of _ _ _ run21_reclaimed "6.5" "6.5" "6.5" "6.5"]
  have "step (Idle 6.5 6.5 6.5 6.5) run21_start = Inr run21_reclaimed \<longrightarrow>
          maps run21_reclaimed ! 0 = maps run21_start ! 0 \<or>
          (1 \<le> maps run21_start ! 0 \<and> maps run21_reclaimed ! 0 = 0)"
    by blast
  with h st v show ?thesis by blast
qed

section \<open>A message handled twice\<close>



section \<open>The lists of files and of states\<close>

text \<open>
  The two lists keep one length through every round, whatever the messages are, and the
  paths found by the directory listing are distinct when the names are.
\<close>

lemma step_lengths:
  assumes "step e s = Inr s'" and "length (log_files s) = length (maps s)"
  shows "length (log_files s') = length (maps s') \<and> log_files s' = log_files s"
proof (cases e)
  case (Idle t1 t2 t3 c)
  with assms(1) have st: "step (Idle t1 t2 t3 c) s = Inr s'" by simp
  have "log_files s' = log_files s"
  proof (cases "t1 - checkpointer s > 5")
    case False
    with st show ?thesis by (auto simp: timeout_scan_fields)
  next
    case True
    with st obtain s1 where p: "periodic_checkpoint t2 t3 s = Inr s1" and "s' = timeout_scan c s1"
      by (auto split: sum.splits)
    then show ?thesis
      using periodic_checkpoint_Inr(4) [OF p] by (simp add: timeout_scan_fields)
  qed
  moreover have "length (maps s') = length (maps s)"
    using step_Idle_maps [OF st] by auto
  ultimately show ?thesis using assms(2) by simp
next
  case (Arrived msg now)
  with assms(1) obtain s1 where c: "complete msg now s = Inr s1"
    and d: "dispatch_next (worker msg) s1 = Inr s'"
    by (auto split: sum.splits)
  show ?thesis
    using dispatch_next_Inr(6) [OF d] complete_Inr(4) [OF c] dispatch_next_length [OF d]
      complete_length_maps [OF c] assms(2) by simp
qed

lemma monitor_lengths:
  assumes "monitor es s = Inr s'" and "length (log_files s) = length (maps s)"
  shows "length (log_files s') = length (maps s') \<and> log_files s' = log_files s"
  using assms
proof (induction es arbitrary: s)
  case Nil
  then show ?case by simp
next
  case (Cons e es)
  show ?case
  proof (cases "monitoring s")
    case False
    with Cons.prems show ?thesis by simp
  next
    case True
    with Cons.prems(1) obtain s1 where st: "step e s = Inr s1" and m: "monitor es s1 = Inr s'"
      by (auto split: sum.splits)
    from step_lengths [OF st Cons.prems(2)] have
      l: "length (log_files s1) = length (maps s1)" and f: "log_files s1 = log_files s"
      by blast+
    from Cons.IH [OF m l] f show ?thesis by metis
  qed
qed

lemma path_join_inj: "path_join dir a = path_join dir b \<Longrightarrow> a = b"
  by (auto simp: path_join_def split: if_splits)

lemma start_fresh_distinct:
  assumes "start d log_dir listing = Inr s" and "load d = Inr NotFound" and "distinct listing"
  shows "distinct (log_files s)"
proof -
  have "log_files s = map (path_join log_dir) (filter (suffix ''.log'') listing)"
    using assms(1,2) by (auto simp: start_def Let_def split: if_splits)
  moreover have "inj_on (path_join log_dir) (set (filter (suffix ''.log'') listing))"
    by (rule inj_onI) (rule path_join_inj)
  ultimately show ?thesis
    using assms(3) by (simp add: distinct_map)
qed

section \<open>Checkpoint records\<close>

lemma split_files_loop:
  "foldl (\<lambda>(completed_files, todo_files) i.
            if mp ! i = -1 then (completed_files @ [lf ! i], todo_files)
            else (completed_files, todo_files @ [lf ! i])) (cs, ts) js =
   (cs @ map (\<lambda>i. lf ! i) (filter (\<lambda>i. mp ! i = -1) js),
    ts @ map (\<lambda>i. lf ! i) (filter (\<lambda>i. mp ! i \<noteq> -1) js))"
  by (induction js arbitrary: cs ts) auto

lemma split_files_eq:
  assumes "length mp \<le> length lf"
  shows "split_files lf mp =
     Inr (map (\<lambda>i. lf ! i) (filter (\<lambda>i. mp ! i = -1) [0..<length mp]),
          map (\<lambda>i. lf ! i) (filter (\<lambda>i. mp ! i \<noteq> -1) [0..<length mp]))"
  using assms by (simp add: split_files_def split_files_loop)

lemma save_checkpoint_eq: "save_checkpoint d dat = Saved dat"
  by (simp add: save_checkpoint_def save_trace_def)

lemma merge_results_default_total:
  "is_default tot \<Longrightarrow> \<exists>tot'. merge_results tot rs = Inr tot'"
  using merge_results_default [of "entries tot" rs] by (cases tot) auto

lemma mset_map_filter_compl:
  "mset (map f (filter P xs)) + mset (map f (filter (\<lambda>x. \<not> P x) xs)) = mset (map f xs)"
  by (induction xs) auto

lemma split_lists_partition:
  assumes "length mp = length lf"
  defines "done \<equiv> map (\<lambda>i. lf ! i) (filter (\<lambda>i. mp ! i = -1) [0..<length mp])"
    and "todo \<equiv> map (\<lambda>i. lf ! i) (filter (\<lambda>i. mp ! i \<noteq> -1) [0..<length mp])"
  shows "length done + length todo = length mp"
    and "mset done + mset todo = mset lf"
    and "distinct lf \<Longrightarrow> set done \<inter> set todo = {}"
proof -
  show "length done + length todo = length mp"
    using sum_length_filter_compl [of "\<lambda>i. mp ! i = -1" "[0..<length mp]"]
    by (simp add: done_def todo_def)
  have "mset done + mset todo = mset (map (\<lambda>i. lf ! i) [0..<length mp])"
    unfolding done_def todo_def by (rule mset_map_filter_compl)
  also have "\<dots> = mset (map (\<lambda>i. lf ! i) [0..<length lf])"
    using assms(1) by simp
  also have "\<dots> = mset lf"
    by (simp only: map_nth)
  finally show "mset done + mset todo = mset lf" .
  show "set done \<inter> set todo = {}" if "distinct lf"
  proof (rule ccontr)
    assume "set done \<inter> set todo \<noteq> {}"
    then obtain i j where "i < length mp" "j < length mp" "mp ! i = -1" "mp ! j \<noteq> -1"
      "lf ! i = lf ! j"
      by (auto simp: done_def todo_def)
    then show False
      using that assms(1) by (auto simp: nth_eq_iff_index_eq)
  qed
qed

text \<open>
  C8. Every checkpoint record, periodic or final, splits the files by the entries of
  \<open>maps\<close>: processed_files are the files of the indices with -1, in index order, and
  pending_files are all the others, the assigned ones included. The two lengths sum to
  the number of units, the two lists together hold each entry of \<open>log_files\<close> once, and
  when the paths are distinct no path is in both. The periodic record is always written;
  the final one is written when the merge into \<open>total_counts\<close> does not raise, as when
  it is a defaultdict.
\<close>

theorem checkpoint_record_partitions:
  assumes "length (log_files s) = length (maps s)"
  shows "(\<exists>s1. periodic_checkpoint t_mark t_stamp s = Inr s1) \<and>
         (is_default (total_counts s) \<longrightarrow> (\<exists>s2. finish nprocs t_stamp s = Inr s2)) \<and>
         (periodic_checkpoint t_mark t_stamp s = Inr s' \<or> finish nprocs t_stamp s = Inr s' \<longrightarrow>
           (\<exists>dat. folder s' = Saved dat \<and>
              processed_files dat =
                map (\<lambda>i. log_files s ! i) (filter (\<lambda>i. maps s ! i = -1) [0..<length (maps s)]) \<and>
              pending_files dat =
                map (\<lambda>i. log_files s ! i) (filter (\<lambda>i. maps s ! i \<noteq> -1) [0..<length (maps s)]) \<and>
              length (processed_files dat) + length (pending_files dat) = length (maps s) \<and>
              mset (processed_files dat) + mset (pending_files dat) = mset (log_files s) \<and>
              (distinct (log_files s) \<longrightarrow>
                 set (processed_files dat) \<inter> set (pending_files dat) = {})))"
proof -
  let ?done = "map (\<lambda>i. log_files s ! i) (filter (\<lambda>i. maps s ! i = -1) [0..<length (maps s)])"
  let ?todo = "map (\<lambda>i. log_files s ! i) (filter (\<lambda>i. maps s ! i \<noteq> -1) [0..<length (maps s)])"
  have sp: "split_files (log_files s) (maps s) = Inr (?done, ?todo)"
    using assms by (simp add: split_files_eq)
  have part: "length ?done + length ?todo = length (maps s)"
    "mset ?done + mset ?todo = mset (log_files s)"
    "distinct (log_files s) \<Longrightarrow> set ?done \<inter> set ?todo = {}"
    using split_lists_partition [of "maps s" "log_files s"] assms by simp_all
  from merge_results_fresh [of "results s"] obtain a where
    a: "merge_results (Dict True []) (results s) = Inr a" by blast
  have p: "\<exists>s1. periodic_checkpoint t_mark t_stamp s = Inr s1"
    by (simp add: periodic_checkpoint_def a sp)
  have f: "\<exists>s2. finish nprocs t_stamp s = Inr s2" if "is_default (total_counts s)"
  proof -
    from merge_results_default_total [OF that, of "results s"] obtain tot where
      "merge_results (total_counts s) (results s) = Inr tot" by blast
    then show ?thesis by (simp add: finish_def sp)
  qed
  have r1: "\<exists>dat. folder s' = Saved dat \<and> processed_files dat = ?done \<and> pending_files dat = ?todo"
    if "periodic_checkpoint t_mark t_stamp s = Inr s'"
    using that by (auto simp: periodic_checkpoint_def a sp save_checkpoint_eq)
  have r2: "\<exists>dat. folder s' = Saved dat \<and> processed_files dat = ?done \<and> pending_files dat = ?todo"
    if "finish nprocs t_stamp s = Inr s'"
    using that by (auto simp: finish_def sp save_checkpoint_eq split: sum.splits)
  show ?thesis
    using p f r1 r2 part by metis
qed

theorem checkpoint_record_partitions_witness:
  "length (log_files run21_reassigned) = length (maps run21_reassigned) \<and>
   (\<exists>s' dat. periodic_checkpoint 7.5 7.5 run21_reassigned = Inr s' \<and> folder s' = Saved dat \<and>
      length (processed_files dat) + length (pending_files dat) = 21 \<and>
      set (processed_files dat) \<inter> set (pending_files dat) = {})"
proof -
  have h: "length (log_files run21_reassigned) = length (maps run21_reassigned)"
    "distinct (log_files run21_reassigned)" "length (maps run21_reassigned) = 21"
    by (simp_all add: run21_reassigned_eq run21_start_eq)
  from checkpoint_record_partitions [OF h(1), of "7.5" "7.5"] h show ?thesis
    by metis
qed

section \<open>Interrupted saves\<close>

text \<open>
  C7, as stated, fails: a save over an existing record first removes the folder. When it
  is interrupted right after that, no record is found, neither the old one nor the new
  one, and the next start begins from the directory listing. When it is interrupted while
  the file is written, reading the record raises.
\<close>

theorem interrupted_save_counterexample:
  "save_trace (Saved ckpt_old) ckpt_new ! 1 = NoFolder \<and>
   load (save_trace (Saved ckpt_old) ckpt_new ! 1) = Inr NotFound \<and>
   save_trace (Saved ckpt_old) ckpt_new ! 3 = Partial \<and>
   load (save_trace (Saved ckpt_old) ckpt_new ! 3) = Inl JSONDecodeError \<and>
   load (Saved ckpt_old) = Inr (Loaded (as_loaded ckpt_old)) \<and>
   load (save_checkpoint (Saved ckpt_old) ckpt_new) = Inr (Loaded (as_loaded ckpt_new))"
  by (simp add: save_trace_def save_checkpoint_def numeral_nat)

text \<open>
  C7, amended. A save that runs to its end replaces the prior record wholesale: the
  resume test then reads the new record. A save removes the folder before it writes, so
  at a point where it is interrupted the resume test finds what it found before the
  save, or no record, or a file that is not yet whole, on which it raises, or the new
  record. A record that is read is the whole old one or the whole new one, never a mix:
  when neither of them lists a file as both processed and pending, no record read
  after an interrupted save does.
\<close>

theorem save_interrupted:
  assumes "st \<in> set (save_trace d dat)"
  shows "load (save_checkpoint d dat) = Inr (Loaded (as_loaded dat)) \<and>
         Partial \<in> set (save_trace d dat) \<and> EmptyFolder \<in> set (save_trace d dat) \<and>
         (load st = load d \<or> load st = Inr NotFound \<or> load st = Inl JSONDecodeError \<or>
          load st = Inr (Loaded (as_loaded dat))) \<and>
         (\<forall>r. load st = Inr (Loaded r) \<longrightarrow> load d = Inr (Loaded r) \<or> r = as_loaded dat) \<and>
         (\<forall>r. set (processed_files dat) \<inter> set (pending_files dat) = {} \<and>
              (\<forall>r0. load d = Inr (Loaded r0) \<longrightarrow>
                    set (processed_files r0) \<inter> set (pending_files r0) = {}) \<and>
              load st = Inr (Loaded r)
              \<longrightarrow> set (processed_files r) \<inter> set (pending_files r) = {})"
proof -
  have cases: "st = d \<or> st = NoFolder \<or> st = EmptyFolder \<or> st = Partial \<or> st = Saved dat"
    using assms by (auto simp: save_trace_def split: if_splits)
  have l: "load st = load d \<or> load st = Inr NotFound \<or> load st = Inl JSONDecodeError \<or>
      load st = Inr (Loaded (as_loaded dat))"
    using cases by auto
  have m: "load d = Inr (Loaded r) \<or> r = as_loaded dat" if "load st = Inr (Loaded r)" for r
    using cases that by auto
  have f: "set (processed_files (as_loaded dat)) \<inter> set (pending_files (as_loaded dat)) =
           set (processed_files dat) \<inter> set (pending_files dat)"
    by (simp add: as_loaded_def)
  have n: "set (processed_files r) \<inter> set (pending_files r) = {}"
    if "set (processed_files dat) \<inter> set (pending_files dat) = {}"
      and "\<forall>r0. load d = Inr (Loaded r0) \<longrightarrow> set (processed_files r0) \<inter> set (pending_files r0) = {}"
      and "load st = Inr (Loaded r)" for r
    using m [OF that(3)] that(1,2) f by auto
  have e: "load (save_checkpoint d dat) = Inr (Loaded (as_loaded dat))"
    "Partial \<in> set (save_trace d dat)" "EmptyFolder \<in> set (save_trace d dat)"
    by (simp_all add: save_checkpoint_def save_trace_def)
  show ?thesis
    using e l m n by blast
qed

theorem save_interrupted_witness:
  "Saved ckpt_old \<in> set (save_trace (Saved ckpt_old) ckpt_new) \<and>
   load (save_checkpoint (Saved ckpt_old) ckpt_new) = Inr (Loaded (as_loaded ckpt_new)) \<and>
   set (processed_files ckpt_new) \<inter> set (pending_files ckpt_new) = {} \<and>
   load (Saved ckpt_old) = Inr (Loaded (as_loaded ckpt_old)) \<and>
   set (processed_files (as_loaded ckpt_old)) \<inter> set (pending_files (as_loaded ckpt_old)) = {}"
proof -
  have h: "Saved ckpt_old \<in> set (save_trace (Saved ckpt_old) ckpt_new)"
    by (simp add: save_trace_def)
  have a: "set (processed_files ckpt_new) \<inter> set (pending_files ckpt_new) = {}"
    by (simp add: ckpt_new_def)
  have b: "\<forall>r0. load (Saved ckpt_old) = Inr (Loaded r0) \<longrightarrow>
              set (processed_files r0) \<inter> set (pending_files r0) = {}"
    by (simp add: ckpt_old_def as_loaded_def)
  have c: "load (Saved ckpt_old) = Inr (Loaded (as_loaded ckpt_old))"
    by simp
  from save_interrupted [OF h] a b c h show ?thesis
    by blast
qed

section \<open>The loop invariant\<close>

lemma done_count_card:
  "done_count s = card {i. i < length (maps s) \<and> maps s ! i = -1}"
  by (simp add: done_count_def length_filter_conv_card)

lemma done_count_same:
  assumes "length (maps s') = length (maps s)"
    and "\<And>i. i < length (maps s) \<Longrightarrow> maps s' ! i = -1 \<longleftrightarrow> maps s ! i = -1"
  shows "done_count s' = done_count s"
proof -
  have "{i. i < length (maps s') \<and> maps s' ! i = -1} = {i. i < length (maps s) \<and> maps s ! i = -1}"
    using assms by auto
  then show ?thesis by (simp add: done_count_card)
qed

lemma step_Idle_done_count:
  assumes "step (Idle t1 t2 t3 c) s = Inr s'"
  shows "done_count s' = done_count s"
proof (rule done_count_same)
  show "length (maps s') = length (maps s)"
    using step_Idle_maps [OF assms] by auto
next
  fix i assume "i < length (maps s)"
  from step_Idle_nth [OF assms this]
  show "maps s' ! i = -1 \<longleftrightarrow> maps s ! i = -1" by auto
qed

lemma dispatch_next_done_count:
  assumes "dispatch_next w s = Inr s'" and "1 \<le> w"
  shows "done_count s' = done_count s"
proof (rule done_count_same)
  show "length (maps s') = length (maps s)"
    by (rule dispatch_next_length [OF assms(1)])
next
  fix i assume "i < length (maps s)"
  from dispatch_next_nth [OF assms(1) this] assms(2)
  show "maps s' ! i = -1 \<longleftrightarrow> maps s ! i = -1" by auto
qed

lemma complete_done_count:
  assumes c: "complete msg now s = Inr s'" and o: "first_report msg s"
  shows "done_count s' = done_count s + length (index msg)"
proof -
  let ?n = "length (maps s)"
  let ?A = "{i. i < ?n \<and> int i \<in> set (index msg)}"
  let ?B = "{i. i < ?n \<and> maps s ! i = -1}"
  from o have w: "1 \<le> worker msg" and d: "distinct (index msg)"
    and r: "\<And>j. j \<in> set (index msg) \<Longrightarrow> 0 \<le> j \<and> nat j < ?n \<and> maps s ! nat j \<noteq> -1"
    by (auto simp: first_report_def list_all_iff)
  have A: "?A = nat ` set (index msg)"
  proof (rule set_eqI, rule iffI)
    fix i assume "i \<in> ?A"
    then have "int i \<in> set (index msg)" by simp
    then have "nat (int i) \<in> nat ` set (index msg)" by (rule imageI)
    then show "i \<in> nat ` set (index msg)" by simp
  next
    fix i assume "i \<in> nat ` set (index msg)"
    then obtain j where j: "j \<in> set (index msg)" "i = nat j" by blast
    with r [OF j(1)] show "i \<in> ?A" by simp
  qed
  have inj: "inj_on nat (set (index msg))"
  proof (rule inj_onI)
    fix x y assume "x \<in> set (index msg)" "y \<in> set (index msg)" "nat x = nat y"
    moreover from this r [of x] r [of y] have "0 \<le> x" "0 \<le> y" by simp_all
    ultimately show "x = y" by linarith
  qed
  have cA: "card ?A = length (index msg)"
    unfolding A by (simp add: card_image [OF inj] distinct_card [OF d])
  have disj: "?A \<inter> ?B = {}"
  proof (rule ccontr)
    assume "?A \<inter> ?B \<noteq> {}"
    then obtain i where "int i \<in> set (index msg)" "maps s ! i = -1" by auto
    with r [of "int i"] w show False by simp
  qed
  have "{i. i < length (maps s') \<and> maps s' ! i = -1} = ?A \<union> ?B"
    using complete_maps_nth [OF c] complete_length_maps [OF c] by (auto split: if_splits)
  then have "done_count s' = card (?A \<union> ?B)"
    by (simp add: done_count_card)
  also have "\<dots> = card ?A + card ?B"
    using disj by (intro card_Un_disjoint) auto
  finally show ?thesis
    by (simp add: cA done_count_card)
qed

text \<open>The invariant: the two lists have one length and \<open>recieved\<close> is the number of done units.\<close>

lemma step_invariant:
  assumes "step e s = Inr s'"
    and "recieved s = done_count s" and "length (log_files s) = length (maps s)"
    and "\<And>msg now. e = Arrived msg now \<Longrightarrow> first_report msg s"
  shows "recieved s' = done_count s' \<and> length (log_files s') = length (maps s')"
proof (cases e)
  case (Idle t1 t2 t3 c)
  with assms(1) have st: "step (Idle t1 t2 t3 c) s = Inr s'" by simp
  have "recieved s' = recieved s \<and> log_files s' = log_files s"
  proof (cases "t1 - checkpointer s > 5")
    case False
    with st show ?thesis by (auto simp: timeout_scan_fields)
  next
    case True
    with st obtain s1 where p: "periodic_checkpoint t2 t3 s = Inr s1" and "s' = timeout_scan c s1"
      by (auto split: sum.splits)
    then show ?thesis
      using periodic_checkpoint_Inr(2,4) [OF p] by (simp add: timeout_scan_fields)
  qed
  moreover have "length (maps s') = length (maps s)"
    using step_Idle_maps [OF st] by auto
  ultimately show ?thesis
    using step_Idle_done_count [OF st] assms(2,3) by simp
next
  case (Arrived msg now)
  with assms(1) obtain s1 where c: "complete msg now s = Inr s1"
    and d: "dispatch_next (worker msg) s1 = Inr s'"
    by (auto split: sum.splits)
  have o: "first_report msg s" using assms(4) Arrived by simp
  then have w: "1 \<le> worker msg" and l: "length (result msg) = length (index msg)"
    by (simp_all add: first_report_def)
  have "recieved s' = recieved s + length (result msg)"
    using dispatch_next_Inr(4) [OF d] complete_Inr(1) [OF c] by simp
  moreover have "done_count s' = done_count s + length (index msg)"
    using dispatch_next_done_count [OF d w] complete_done_count [OF c o] by simp
  moreover have "length (log_files s') = length (maps s')"
    using dispatch_next_Inr(6) [OF d] complete_Inr(4) [OF c] dispatch_next_length [OF d]
      complete_length_maps [OF c] assms(3) by simp
  ultimately show ?thesis using assms(2) l by simp
qed

lemma monitor_invariant:
  assumes "monitor es s = Inr s'" and "first_report_run es s"
    and "recieved s = done_count s" and "length (log_files s) = length (maps s)"
  shows "recieved s' = done_count s' \<and> length (log_files s') = length (maps s')"
  using assms
proof (induction es arbitrary: s)
  case Nil
  then show ?case by simp
next
  case (Cons e es)
  show ?case
  proof (cases "monitoring s")
    case False
    with Cons.prems show ?thesis by simp
  next
    case True
    with Cons.prems(1) obtain s1 where st: "step e s = Inr s1" and m: "monitor es s1 = Inr s'"
      by (auto split: sum.splits)
    have o: "first_report msg s" if "e = Arrived msg now" for msg now
      using Cons.prems(2) True that by simp
    have r: "first_report_run es s1"
      using Cons.prems(2) True st by simp
    from step_invariant [OF st Cons.prems(3,4) o]
    have "recieved s1 = done_count s1" "length (log_files s1) = length (maps s1)"
      by simp_all
    from Cons.IH [OF m r this] show ?thesis .
  qed
qed

lemma all_done:
  assumes "recieved s = done_count s" and "length (log_files s) = length (maps s)"
    and "\<not> monitoring s"
  shows "\<forall>m \<in> set (maps s). m = -1"
proof -
  have "length (maps s) \<le> length (filter (\<lambda>m. m = -1) (maps s))"
    using assms by (simp add: monitoring_def done_count_def)
  moreover have "length (filter (\<lambda>m. m = -1) (maps s)) +
      length (filter (\<lambda>m. m \<noteq> -1) (maps s)) = length (maps s)"
    by (rule sum_length_filter_compl)
  ultimately have "length (filter (\<lambda>m. m \<noteq> -1) (maps s)) = 0"
    by linarith
  then have "filter (\<lambda>m. m \<noteq> -1) (maps s) = []"
    by (simp only: length_0_conv)
  then show ?thesis
    by (simp add: filter_empty_conv)
qed

section \<open>Leaving the loop\<close>

lemma run11_start_eq:
  "run11_start =
     \<lparr>log_files = map (\<lambda>c. ''logs/'' @ [c] @ ''.log'') ''abcdefghijk'',
      maps = replicate 10 1 @ [0], total_counts = Dict True [],
      recieved = 0, results = [], timers = [1, 0], checkpointer = 1,
      sent = [(1, Dispatch (map (\<lambda>(c, i). (''logs/'' @ [c] @ ''.log'', i)) (zip ''abcdefghij'' [0..9])))],
      folder = NoFolder\<rparr>"
  by (simp add: run11_start_def run_defs demo_defs upto.simps)

lemma run11_checkpoint_eq:
  "run11_checkpoint =
     Saved \<lparr>timestamp = 7, counts = Dict True [(''INFO'', 10)],
            processed_files = map (\<lambda>c. ''logs/'' @ [c] @ ''.log'') ''abcdefghij'',
            pending_files = [''logs/k.log'']\<rparr>"
  by (simp add: run11_checkpoint_def run11_start_eq run_defs demo_defs)

lemma run11_first_reports: "first_report_run run11_events run11_start"
  by (simp add: run11_start_eq run_defs demo_defs first_report_def)

lemma run11_end_eq:
  "run11_end = run11_start
     \<lparr>maps := replicate 11 (-1), recieved := 11,
      results := replicate 10 (Dict True [(''INFO'', 1)]) @ [Dict True [(''ERROR'', 1)]],
      timers := [8, 0], checkpointer := 7,
      sent := sent run11_start @ [(1, Dispatch [(''logs/k.log'', 10)])],
      folder := run11_checkpoint\<rparr>"
  by (simp add: run11_end_def run11_checkpoint_eq run11_start_eq run_defs demo_defs)

lemma run11_monitor: "monitor run11_events run11_start = Inr run11_end"
  by (simp add: run11_end_eq run11_checkpoint_eq run11_start_eq run_defs demo_defs)

lemma start_invariant:
  assumes "start d log_dir listing = Inr s"
  shows "recieved s = done_count s \<and> length (log_files s) = length (maps s)"
proof (cases "load d")
  case (Inl e)
  with assms show ?thesis by (simp add: start_def)
next
  case (Inr r)
  show ?thesis
  proof (cases r)
    case NotFound
    with Inr assms show ?thesis
      by (auto simp: start_def Let_def done_count_def split: if_splits)
  next
    case (Loaded dat)
    with Inr assms show ?thesis
      by (auto simp: start_def Let_def done_count_def split: if_splits)
  qed
qed

lemma dispatch_initial_rounds_fields:
  "recieved (foldl (dispatch_initial fi clock) s ws) = recieved s \<and>
   log_files (foldl (dispatch_initial fi clock) s ws) = log_files s \<and>
   length (maps (foldl (dispatch_initial fi clock) s ws)) = length (maps s)"
  by (induction ws arbitrary: s) (simp_all add: dispatch_initial_def foldl_update_length)

lemma initial_dispatch_invariant:
  assumes "recieved s = done_count s" and "length (log_files s) = length (maps s)"
  shows "recieved (initial_dispatch nprocs clock t s) = done_count (initial_dispatch nprocs clock t s) \<and>
         length (log_files (initial_dispatch nprocs clock t s)) =
           length (maps (initial_dispatch nprocs clock t s))"
proof -
  let ?s' = "initial_dispatch nprocs clock t s"
  have f: "recieved ?s' = recieved s" "log_files ?s' = log_files s"
    using dispatch_initial_rounds_fields
      [of "first_indices nprocs s" clock "s\<lparr>timers := replicate nprocs 0, results := []\<rparr>" "[1..<nprocs]"]
    by (simp_all add: initial_dispatch_def)
  have l: "length (maps ?s') = length (maps s)"
    using dispatch_initial_rounds_fields
      [of "first_indices nprocs s" clock "s\<lparr>timers := replicate nprocs 0, results := []\<rparr>" "[1..<nprocs]"]
    by (simp add: initial_dispatch_def)
  have "done_count ?s' = done_count s"
  proof (rule done_count_same [OF l])
    fix i assume "i < length (maps s)"
    from initial_dispatch_nth [OF this, of nprocs clock t]
    show "maps ?s' ! i = -1 \<longleftrightarrow> maps s ! i = -1" by auto
  qed
  with f l assms show ?thesis by simp
qed

text \<open>
  When every message that is handled reports its units for the first time, \<open>recieved\<close>
  is the number of done units through the whole run, and the loop is left only when
  every unit is done.
\<close>

lemma loop_exit_all_done:
  assumes "start d log_dir listing = Inr s0"
    and "first_report_run es (initial_dispatch nprocs clock t s0)"
    and "monitor es (initial_dispatch nprocs clock t s0) = Inr s'"
    and "\<not> monitoring s'"
  shows "0 \<notin> set (maps s') \<and> length (log_files s') \<le> recieved s' \<and>
         recieved s' = done_count s' \<and> (\<forall>m \<in> set (maps s'). m = -1)"
proof -
  from start_invariant [OF assms(1)] have
    "recieved s0 = done_count s0" "length (log_files s0) = length (maps s0)"
    by simp_all
  from initial_dispatch_invariant [OF this, of nprocs clock t] have
    "recieved (initial_dispatch nprocs clock t s0) = done_count (initial_dispatch nprocs clock t s0)"
    "length (log_files (initial_dispatch nprocs clock t s0)) =
       length (maps (initial_dispatch nprocs clock t s0))"
    by simp_all
  from monitor_invariant [OF assms(3,2) this] have
    i: "recieved s' = done_count s'" "length (log_files s') = length (maps s')"
    by simp_all
  from all_done [OF i assms(4)] i(1) assms(4) show ?thesis
    by (auto simp: monitoring_def)
qed

text \<open>The run over 11 files is such a run, and it ends with every unit done.\<close>

lemma run11_exit_all_done:
  "first_report_run run11_events run11_start \<and>
   monitor run11_events run11_start = Inr run11_end \<and>
   \<not> monitoring run11_end \<and> maps run11_end = replicate 11 (-1) \<and>
   recieved run11_end = done_count run11_end"
proof -
  have s: "start NoFolder ''logs'' run11_listing = Inr (projr (start NoFolder ''logs'' run11_listing))"
    by (simp add: start_def run11_listing_def suffix_to_prefix)
  have m: "monitor run11_events (initial_dispatch 2 (\<lambda>i. 1) 1 (projr (start NoFolder ''logs'' run11_listing)))
      = Inr run11_end"
    unfolding run11_start_def [symmetric] by (rule run11_monitor)
  have o: "first_report_run run11_events (initial_dispatch 2 (\<lambda>i. 1) 1 (projr (start NoFolder ''logs'' run11_listing)))"
    unfolding run11_start_def [symmetric] by (rule run11_first_reports)
  have e: "\<not> monitoring run11_end" "maps run11_end = replicate 11 (-1)"
    by (simp_all add: run11_end_eq run11_start_eq monitoring_def)
  from loop_exit_all_done [OF s o m e(1)] run11_first_reports run11_monitor e show ?thesis
    by blast
qed

text \<open>
  C3 fails on the code. In the run over 21 files worker 1 is slow: it is timed out at 6.5
  and its files 0 to 9 go to worker 2, but its report still arrives, and worker 2 then
  reports the same files again. \<open>recieved\<close> counts both reports and reaches 30, no file
  is pending, and the loop is left after the fourth round while the file 20 is assigned
  to worker 1, which was sent the stop signal. The run ends without an error: the final
  counts are INFO 30 for 21 files with one [INFO] line each, and the final checkpoint
  lists the file 20 as pending. It is never analysed.
\<close>

theorem loop_left_with_assigned_unit:
  "monitor run21_events run21_start = Inr run21_end \<and> \<not> monitoring run21_end \<and>
   maps run21_end ! 20 = 1 \<and> recieved run21_end = 30 \<and> length (log_files run21_end) = 21 \<and>
   (1, Stop) \<in> set (sent run21_end) \<and>
   \<not> isl (finish 3 9 run21_end) \<and>
   folder (projr (finish 3 9 run21_end)) =
     Saved \<lparr>timestamp = 9, counts = Dict True [(''INFO'', 30)],
            processed_files = map (\<lambda>c. ''logs/'' @ [c] @ ''.log'') ''abcdefghijklmnopqrst'',
            pending_files = [''logs/u.log'']\<rparr>"
proof -
  have f: "finish 3 9 run21_end = Inr (run21_end
      \<lparr>sent := sent run21_end @ [(1, Stop), (2, Stop)],
       total_counts := Dict True [(''INFO'', 30)],
       folder := Saved \<lparr>timestamp = 9, counts = Dict True [(''INFO'', 30)],
            processed_files = map (\<lambda>c. ''logs/'' @ [c] @ ''.log'') ''abcdefghijklmnopqrst'',
            pending_files = [''logs/u.log'']\<rparr>\<rparr>)"
    by (simp add: run21_end_eq run21_start_eq run_defs)
  have e: "\<not> monitoring run21_end" "maps run21_end ! 20 = 1" "recieved run21_end = 30"
    "length (log_files run21_end) = 21" "(1, Stop) \<in> set (sent run21_end)"
    by (simp_all add: run21_end_eq run21_start_eq monitoring_def nth_append)
  show ?thesis
    using run21_monitor e by (simp add: f)
qed

section \<open>Resuming from a checkpoint\<close>

text \<open>
  C4 fails on the code. The run over 11 files, uninterrupted, ends with the counts INFO 10
  and ERROR 1. Killed after the checkpoint at time 7 and started again, main reads the
  counts of the checkpoint as a plain dict, the worker reports the last file, and the
  final merge raises KeyError at the level ERROR, which the checkpoint does not have: the
  resumed run prints no result and writes no final checkpoint.
\<close>

theorem resume_raises_KeyError:
  "run11_checkpoint =
     Saved \<lparr>timestamp = 7, counts = Dict True [(''INFO'', 10)],
            processed_files = map (\<lambda>c. ''logs/'' @ [c] @ ''.log'') ''abcdefghij'',
            pending_files = [''logs/k.log'']\<rparr> \<and>
   \<not> isl (main_master NoFolder ''logs'' run11_listing 2 (\<lambda>i. 1) 1 run11_events 9) \<and>
   total_counts (projr (main_master NoFolder ''logs'' run11_listing 2 (\<lambda>i. 1) 1 run11_events 9))
     = Dict True [(''INFO'', 10), (''ERROR'', 1)] \<and>
   main_master run11_checkpoint ''logs'' run11_listing 2 (\<lambda>i. 1) 1 [Arrived report_last 3] 4
     = Inl (Raised KeyError)"
proof -
  have s: "start NoFolder ''logs'' run11_listing = Inr (projr (start NoFolder ''logs'' run11_listing))"
    by (simp add: start_def run11_listing_def suffix_to_prefix)
  have f: "finish 2 9 run11_end = Inr (run11_end
      \<lparr>sent := sent run11_end @ [(1, Stop)],
       total_counts := Dict True [(''INFO'', 10), (''ERROR'', 1)],
       folder := Saved \<lparr>timestamp = 9, counts = Dict True [(''INFO'', 10), (''ERROR'', 1)],
            processed_files = map (\<lambda>c. ''logs/'' @ [c] @ ''.log'') ''abcdefghijk'',
            pending_files = []\<rparr>\<rparr>)"
    by (simp add: run11_end_eq run11_start_eq run_defs)
  have a: "main_master NoFolder ''logs'' run11_listing 2 (\<lambda>i. 1) 1 run11_events 9 =
      Inr (run11_end
      \<lparr>sent := sent run11_end @ [(1, Stop)],
       total_counts := Dict True [(''INFO'', 10), (''ERROR'', 1)],
       folder := Saved \<lparr>timestamp = 9, counts = Dict True [(''INFO'', 10), (''ERROR'', 1)],
            processed_files = map (\<lambda>c. ''logs/'' @ [c] @ ''.log'') ''abcdefghijk'',
            pending_files = []\<rparr>\<rparr>)"
    unfolding main_master_def
    by (subst s, simp only: sum.case run11_start_def [symmetric] run11_monitor f)
  have b: "main_master run11_checkpoint ''logs'' run11_listing 2 (\<lambda>i. 1) 1 [Arrived report_last 3] 4
     = Inl (Raised KeyError)"
    by (simp add: run11_checkpoint_eq run_defs demo_defs)
  show ?thesis
  proof (intro conjI)
    show "run11_checkpoint =
       Saved \<lparr>timestamp = 7, counts = Dict True [(''INFO'', 10)],
              processed_files = map (\<lambda>c. ''logs/'' @ [c] @ ''.log'') ''abcdefghij'',
              pending_files = [''logs/k.log'']\<rparr>"
      by (rule run11_checkpoint_eq)
    show "\<not> isl (main_master NoFolder ''logs'' run11_listing 2 (\<lambda>i. 1) 1 run11_events 9)"
      by (simp add: a)
    show "total_counts (projr (main_master NoFolder ''logs'' run11_listing 2 (\<lambda>i. 1) 1 run11_events 9))
       = Dict True [(''INFO'', 10), (''ERROR'', 1)]"
      by (simp add: a)
    show "main_master run11_checkpoint ''logs'' run11_listing 2 (\<lambda>i. 1) 1 [Arrived report_last 3] 4
       = Inl (Raised KeyError)"
      by (rule b)
  qed
qed

text \<open>
  A second defect of the resume: a periodic checkpoint of a resumed run merges its counts
  from \<open>results\<close> alone, so the counts read from the earlier checkpoint are dropped while
  its files are still listed as processed.
\<close>

lemma resumed_checkpoint_drops_loaded_counts:
  "folder (projr (monitor [Idle 7 7 7 7]
      (initial_dispatch 2 (\<lambda>i. 1) 1 (projr (start run11_checkpoint ''logs'' run11_listing))))) =
     Saved \<lparr>timestamp = 7, counts = Dict True [],
            processed_files = map (\<lambda>c. ''logs/'' @ [c] @ ''.log'') ''abcdefghij'',
            pending_files = [''logs/k.log'']\<rparr>"
  by (simp add: run11_checkpoint_eq run_defs demo_defs)

end
